theory Spec2Isabelle
  imports Complex_Main
begin

section \<open>Trajectory store and target builder of \<open>simulation.py\<close>\<close>

text \<open>
  The development embeds class \<open>GameStats\<close> of \<open>src/simulation.py\<close>: its constructor,
  \<open>append\<close>, \<open>update_last_reward_and_values\<close>, \<open>make_target\<close> and the helper
  \<open>roll_by_gather\<close>.

  Conventions of the embedding.
  \<^item> A dense tensor of a shape fixed by the hyperparameters is a total function from
    indices to entries; the shape is read from the hyperparameters, and every access
    the source makes is bounds-checked in the model the way torch checks it (an index
    outside the shape raises, a negative index counts from the end).
  \<^item> \<open>float32\<close> entries are real numbers: rounding, infinities and NaN are outside
    the model.
  \<^item> Exceptions are values: every function that can raise returns \<open>error + 'a\<close>.
    The state a raising call leaves half-written is not returned.
  \<^item> Devices, \<open>detach\<close>, \<open>clone\<close> and logging have no counterpart.
  \<^item> \<open>stored_tensors\<close> holds references to the very tensors that are the fields
    of the object, so a write through \<open>dst\<close> is a write to the field.
\<close>

subsection \<open>Errors and hyperparameters\<close>

datatype error =
    ValueError_invalid_key string
  | ValueError_not_in_place
  | TorchError

text \<open>
  \<open>ValueError_invalid_key\<close> and \<open>ValueError_not_in_place\<close> are the two
  \<open>raise ValueError\<close> of \<open>append\<close>; \<open>TorchError\<close> stands for every
  \<open>IndexError\<close> and \<open>RuntimeError\<close> that indexing, broadcasting or a dtype
  mismatch raises inside torch (and for Python's \<open>IndexError\<close> on a list).
\<close>

text \<open>
  Class \<open>GenericHparams\<close> is not among the sources; the fields that \<open>GameStats\<close>
  reads are taken as a record.
\<close>

record hparams =
  batch_size :: nat
  max_episode_len :: nat
  num_actions :: nat
  num_unroll_steps :: nat
  td_steps :: nat
  value_discount :: real

subsection \<open>Stored tensors\<close>

text \<open>
  A tensor passed in by the caller, by dtype and rank. \<open>StateT\<close> is a tensor of rank
  four whose first dimension is listed; what lies below the first dimension is opaque.
\<close>

datatype 'o tensor =
    FloatT "real list"
  | FloatT2 "real list list"
  | LongT "int list"
  | BoolT "bool list"
  | StateT "'o list"

record 'o game_stats =
  episode_len :: "nat \<Rightarrow> nat"
  rewards :: "nat \<Rightarrow> nat \<Rightarrow> real"
  root_values :: "nat \<Rightarrow> nat \<Rightarrow> real"
  children_visits :: "nat \<Rightarrow> nat \<Rightarrow> nat \<Rightarrow> real"
  actions :: "nat \<Rightarrow> nat \<Rightarrow> int"
  player_ids :: "nat \<Rightarrow> nat \<Rightarrow> int"
  dones :: "nat \<Rightarrow> bool"
  game_states :: "'o tensor list"

text \<open>\<open>GameStats.__init__\<close>: every buffer is zero, the list of snapshots is empty.\<close>

definition game_stats_init :: "'o game_stats" where
  "game_stats_init =
     \<lparr> episode_len = (\<lambda>_. 0),
       rewards = (\<lambda>_ _. 0),
       root_values = (\<lambda>_ _. 0),
       children_visits = (\<lambda>_ _ _. 0),
       actions = (\<lambda>_ _. 0),
       player_ids = (\<lambda>_ _. 0),
       dones = (\<lambda>_. False),
       game_states = [] \<rparr>"

definition stored_tensors :: "string list" where
  "stored_tensors =
     [''rewards'', ''root_values'', ''children_visits'', ''actions'', ''player_ids'',
      ''dones'', ''game_states'']"

subsection \<open>Indexing as torch does it\<close>

text \<open>
  An index into a dimension of size \<open>n\<close>: \<open>0 .. n-1\<close> as it is, \<open>-n .. -1\<close> counted
  from the end, anything else raises.
\<close>

definition norm_index :: "nat \<Rightarrow> int \<Rightarrow> error + nat" where
  "norm_index n i =
     (if 0 \<le> i \<and> i < int n then Inr (nat i)
      else if - int n \<le> i \<and> i < 0 then Inr (nat (i + int n))
      else Inl TorchError)"

fun norm_indices :: "nat \<Rightarrow> int list \<Rightarrow> error + nat list" where
  "norm_indices n [] = Inr []"
| "norm_indices n (i # js) =
     (case norm_index n i of
        Inl e \<Rightarrow> Inl e
      | Inr k \<Rightarrow> (case norm_indices n js of Inl e \<Rightarrow> Inl e | Inr ks \<Rightarrow> Inr (k # ks)))"

text \<open>
  The value of an indexed assignment is broadcast to the \<open>n\<close> indexed places: it has
  \<open>n\<close> entries, or one entry that is repeated.
\<close>

definition broadcast_to :: "nat \<Rightarrow> 'a list \<Rightarrow> error + 'a list" where
  "broadcast_to n vs =
     (if length vs = n then Inr vs
      else if length vs = 1 then Inr (replicate n (hd vs))
      else Inl TorchError)"

text \<open>
  \<open>dst[index, position] = value\<close> for index tensors of equal length, written in order
  (a slot named twice keeps the later write).
\<close>

fun index_put2 :: "(nat \<Rightarrow> nat \<Rightarrow> 'a) \<Rightarrow> (nat \<times> nat \<times> 'a) list \<Rightarrow> nat \<Rightarrow> nat \<Rightarrow> 'a" where
  "index_put2 t [] = t"
| "index_put2 t ((s, p, v) # ws) = index_put2 (t(s := (t s)(p := v))) ws"

subsection \<open>\<open>update_last_reward_and_values\<close>\<close>

text \<open>
  \<^verbatim>\<open>
  episode_len = self.episode_len[win_index].long()
  self.rewards[win_index, episode_len-1] = rewards
  \<close>
\<close>

definition update_last_reward_and_values ::
  "hparams \<Rightarrow> 'o game_stats \<Rightarrow> int list \<Rightarrow> real list \<Rightarrow> error + 'o game_stats" where
  "update_last_reward_and_values hp st win_index rs =
     (case norm_indices (batch_size hp) win_index of
        Inl e \<Rightarrow> Inl e
      | Inr slots \<Rightarrow>
          (case norm_indices (max_episode_len hp)
                  (map (\<lambda>s. int (episode_len st s) - 1) slots) of
             Inl e \<Rightarrow> Inl e
           | Inr poss \<Rightarrow>
               (case broadcast_to (length slots) rs of
                  Inl e \<Rightarrow> Inl e
                | Inr vs \<Rightarrow>
                    Inr (st\<lparr>rewards := index_put2 (rewards st) (zip slots (zip poss vs))\<rparr>))))"

subsection \<open>\<open>append\<close>\<close>

text \<open>
  \<open>dst[index] = value\<close> on a tensor of rank one, and
  \<open>dst[index, :, position] = value\<close> on the visit counts, whose middle dimension is
  the action: the row of slot \<open>s\<close> is written to \<open>dst[s, a, p]\<close> for every action \<open>a\<close>.
\<close>

fun index_put1 :: "(nat \<Rightarrow> 'a) \<Rightarrow> (nat \<times> 'a) list \<Rightarrow> nat \<Rightarrow> 'a" where
  "index_put1 t [] = t"
| "index_put1 t ((s, v) # ws) = index_put1 (t(s := v)) ws"

fun index_put3 ::
  "(nat \<Rightarrow> nat \<Rightarrow> nat \<Rightarrow> 'a) \<Rightarrow> (nat \<times> nat \<times> 'a list) list \<Rightarrow> nat \<Rightarrow> nat \<Rightarrow> nat \<Rightarrow> 'a" where
  "index_put3 t [] = t"
| "index_put3 t ((s, p, row) # ws) =
     index_put3 (t(s := (\<lambda>a. if a < length row then (t s a)(p := row ! a) else t s a))) ws"

fun broadcast_rows :: "nat \<Rightarrow> 'a list list \<Rightarrow> error + 'a list list" where
  "broadcast_rows A [] = Inr []"
| "broadcast_rows A (r # rs) =
     (case broadcast_to A r of
        Inl e \<Rightarrow> Inl e
      | Inr w \<Rightarrow> (case broadcast_rows A rs of Inl e \<Rightarrow> Inl e | Inr ws \<Rightarrow> Inr (w # ws)))"

text \<open>
  \<open>dst[index, episode_len] = value\<close>: the positions are the episode lengths of the
  indexed slots and must lie inside the buffer of \<open>L\<close> steps.
\<close>

definition put_steps ::
  "nat \<Rightarrow> nat list \<Rightarrow> nat list \<Rightarrow> 'a list \<Rightarrow> (nat \<Rightarrow> nat \<Rightarrow> 'a) \<Rightarrow> error + (nat \<Rightarrow> nat \<Rightarrow> 'a)" where
  "put_steps L slots eps vs t =
     (if \<not> list_all (\<lambda>p. p < L) eps then Inl TorchError
      else (case broadcast_to (length slots) vs of
              Inl e \<Rightarrow> Inl e
            | Inr ws \<Rightarrow> Inr (index_put2 t (zip slots (zip eps ws)))))"

text \<open>
  \<^verbatim>\<open>
  dst[index, :, episode_len] = value.detach().clone()
  new_visits = dst[index, :, episode_len]
  if torch.any(value != new_visits):
      raise ValueError(f'could not update tensor in place: ...')
  \<close>
\<close>

definition put_visits ::
  "nat \<Rightarrow> nat \<Rightarrow> nat list \<Rightarrow> nat list \<Rightarrow> real list list \<Rightarrow> (nat \<Rightarrow> nat \<Rightarrow> nat \<Rightarrow> real)
   \<Rightarrow> error + (nat \<Rightarrow> nat \<Rightarrow> nat \<Rightarrow> real)" where
  "put_visits A L slots eps rows t =
     (if \<not> list_all (\<lambda>p. p < L) eps then Inl TorchError
      else (case broadcast_to (length slots) rows of
              Inl e \<Rightarrow> Inl e
            | Inr rs \<Rightarrow>
                (case broadcast_rows A rs of
                   Inl e \<Rightarrow> Inl e
                 | Inr ws \<Rightarrow>
                     (let new = index_put3 t (zip slots (zip eps ws)) in
                      if list_all (\<lambda>(s, p, row). list_all (\<lambda>a. row ! a = new s a p) [0..<A])
                           (zip slots (zip eps ws))
                      then Inr new
                      else Inl ValueError_not_in_place))))"

definition put_flags :: "nat list \<Rightarrow> 'a list \<Rightarrow> (nat \<Rightarrow> 'a) \<Rightarrow> error + (nat \<Rightarrow> 'a)" where
  "put_flags slots vs t =
     (case broadcast_to (length slots) vs of
        Inl e \<Rightarrow> Inl e
      | Inr ws \<Rightarrow> Inr (index_put1 t (zip slots ws)))"

text \<open>
  The body of the loop of \<open>append\<close> for a key that is in \<open>stored_tensors\<close>. The source
  has four branches (\<open>children_visits\<close>, \<open>dones\<close>, \<open>game_states\<close>, and one for every
  other key, which writes \<open>dst[index, episode_len]\<close>); here the last branch is spelled
  out per buffer, since each buffer is a field of its own. An indexed assignment
  needs a value of the buffer's dtype, and the model takes it in the rank of the
  indexed places; a tensor of another dtype or rank raises. \<open>game_states\<close> is a Python
  list and takes any tensor.
\<close>

definition store_field ::
  "hparams \<Rightarrow> nat list \<Rightarrow> nat list \<Rightarrow> string \<Rightarrow> 'o tensor \<Rightarrow> 'o game_stats
   \<Rightarrow> error + 'o game_stats" where
  "store_field hp slots eps key v st =
     (if key = ''children_visits'' then
        (case v of
           FloatT2 rows \<Rightarrow>
             (case put_visits (num_actions hp) (max_episode_len hp) slots eps rows
                     (children_visits st) of
                Inl e \<Rightarrow> Inl e
              | Inr t \<Rightarrow> Inr (st\<lparr>children_visits := t\<rparr>))
         | _ \<Rightarrow> Inl TorchError)
      else if key = ''dones'' then
        (case v of
           BoolT bs \<Rightarrow>
             (case put_flags slots bs (dones st) of
                Inl e \<Rightarrow> Inl e
              | Inr t \<Rightarrow> Inr (st\<lparr>dones := t\<rparr>))
         | _ \<Rightarrow> Inl TorchError)
      else if key = ''game_states'' then
        Inr (st\<lparr>game_states := game_states st @ [v]\<rparr>)
      else if key = ''rewards'' then
        (case v of
           FloatT vs \<Rightarrow>
             (case put_steps (max_episode_len hp) slots eps vs (rewards st) of
                Inl e \<Rightarrow> Inl e
              | Inr t \<Rightarrow> Inr (st\<lparr>rewards := t\<rparr>))
         | _ \<Rightarrow> Inl TorchError)
      else if key = ''root_values'' then
        (case v of
           FloatT vs \<Rightarrow>
             (case put_steps (max_episode_len hp) slots eps vs (root_values st) of
                Inl e \<Rightarrow> Inl e
              | Inr t \<Rightarrow> Inr (st\<lparr>root_values := t\<rparr>))
         | _ \<Rightarrow> Inl TorchError)
      else if key = ''actions'' then
        (case v of
           LongT vs \<Rightarrow>
             (case put_steps (max_episode_len hp) slots eps vs (actions st) of
                Inl e \<Rightarrow> Inl e
              | Inr t \<Rightarrow> Inr (st\<lparr>actions := t\<rparr>))
         | _ \<Rightarrow> Inl TorchError)
      else
        (case v of
           LongT vs \<Rightarrow>
             (case put_steps (max_episode_len hp) slots eps vs (player_ids st) of
                Inl e \<Rightarrow> Inl e
              | Inr t \<Rightarrow> Inr (st\<lparr>player_ids := t\<rparr>))
         | _ \<Rightarrow> Inl TorchError))"

text \<open>
  \<^verbatim>\<open>
  for key, value in tensors_dict.items():
      if not key in self.stored_tensors:
          ...
          raise ValueError(msg)
      dst = self.stored_tensors[key]
      ...
  \<close>
  The dictionary is the list of its items in insertion order.
\<close>

fun append_loop ::
  "hparams \<Rightarrow> nat list \<Rightarrow> nat list \<Rightarrow> (string \<times> 'o tensor) list \<Rightarrow> 'o game_stats
   \<Rightarrow> error + 'o game_stats" where
  "append_loop hp slots eps [] st = Inr st"
| "append_loop hp slots eps ((key, v) # items) st =
     (if key \<notin> set stored_tensors then Inl (ValueError_invalid_key key)
      else (case store_field hp slots eps key v st of
              Inl e \<Rightarrow> Inl e
            | Inr st' \<Rightarrow> append_loop hp slots eps items st'))"

text \<open>
  \<^verbatim>\<open>
  episode_len = self.episode_len[index].long()
  index = index.long()
  for key, value in tensors_dict.items(): ...
  self.episode_len[index] += 1
  \<close>
  The last line reads \<open>self.episode_len[index]\<close>, adds one and writes the sums back
  through the index, so a slot named twice is still incremented once.
\<close>

definition append_stats ::
  "hparams \<Rightarrow> 'o game_stats \<Rightarrow> int list \<Rightarrow> (string \<times> 'o tensor) list \<Rightarrow> error + 'o game_stats" where
  "append_stats hp st index tensors_dict =
     (case norm_indices (batch_size hp) index of
        Inl e \<Rightarrow> Inl e
      | Inr slots \<Rightarrow>
          (case append_loop hp slots (map (episode_len st) slots) tensors_dict st of
             Inl e \<Rightarrow> Inl e
           | Inr st' \<Rightarrow>
               Inr (st'\<lparr>episode_len :=
                      index_put1 (episode_len st')
                        (zip slots (map (\<lambda>s. episode_len st' s + 1) slots))\<rparr>)))"

text \<open>A sequence of \<open>append\<close> calls on one store, stopping at the first that raises.\<close>

fun append_all ::
  "hparams \<Rightarrow> 'o game_stats \<Rightarrow> (int list \<times> (string \<times> 'o tensor) list) list
   \<Rightarrow> error + 'o game_stats" where
  "append_all hp st [] = Inr st"
| "append_all hp st ((index, tensors_dict) # calls) =
     (case append_stats hp st index tensors_dict of
        Inl e \<Rightarrow> Inl e
      | Inr st' \<Rightarrow> append_all hp st' calls)"


subsection \<open>\<open>roll_by_gather\<close> and the discount multipliers\<close>

text \<open>
  \<open>base ** e\<close> on reals for a base that is not negative (the discount): \<open>x ** 0 = 1\<close>,
  also for \<open>x = 0\<close>.
\<close>

definition pow_real :: "real \<Rightarrow> real \<Rightarrow> real" where
  "pow_real b e = (if e = 0 then 1 else b powr e)"

text \<open>
  \<open>torch.linspace(a, b, steps)\<close> and \<open>torch.logspace(a, b, steps, base)\<close>: the exponents
  are spread evenly from \<open>a\<close> to \<open>b\<close>; a single step is \<open>a\<close>.
\<close>

definition linspace :: "real \<Rightarrow> real \<Rightarrow> nat \<Rightarrow> real list" where
  "linspace a b steps =
     map (\<lambda>j. if steps = 1 then a else a + real j * (b - a) / real (steps - 1)) [0..<steps]"

definition logspace :: "real \<Rightarrow> real \<Rightarrow> nat \<Rightarrow> real \<Rightarrow> real list" where
  "logspace a b steps base = map (pow_real base) (linspace a b steps)"

text \<open>
  \<^verbatim>\<open>
  discount_mult = torch.logspace(0, 1, self.hparams.td_steps, base=self.hparams.value_discount)
  \<close>
  The source tiles this row once per sample; every row is the same, so the model
  keeps the one row.
\<close>

definition discount_mult :: "hparams \<Rightarrow> real list" where
  "discount_mult hp = logspace 0 1 (td_steps hp) (value_discount hp)"

text \<open>
  \<open>roll_by_gather(mat, 1, shifts)\<close>, one row of it: column \<open>c\<close> of the result is column
  \<open>(c - shift) % n_cols\<close> of the row. (\<open>make_target\<close> calls it with \<open>dim = 1\<close> only; the
  branch for \<open>dim = 0\<close> is not modelled.)
  \<^verbatim>\<open>
  arange1 = torch.arange(n_cols).view((1, n_cols)).repeat((n_rows, 1))
  arange2 = (arange1 - shifts) % n_cols
  return torch.gather(mat, 1, arange2)
  \<close>
\<close>

definition roll_by_gather_row :: "'a list \<Rightarrow> int \<Rightarrow> 'a list" where
  "roll_by_gather_row row shift =
     map (\<lambda>c. row ! nat ((int c - shift) mod int (length row))) [0..<length row]"

subsection \<open>\<open>make_target\<close>\<close>

text \<open>
  \<open>TrainElement\<close>. The fields carry the prefix \<open>te_\<close>, since the store has fields of
  the same names. \<open>te_children_visits\<close> lists, per action, the window of steps.
\<close>

record 'o train_element =
  te_start_index :: int
  te_values :: "real list"
  te_rewards :: "real list"
  te_children_visits :: "real list list"
  te_initial_game_state :: 'o
  te_actions :: "int list"
  te_sample_len :: int
  te_player_ids :: "int list"

text \<open>
  The tensors that the loop of \<open>make_target\<close> fills, all zero at the start
  (\<open>player_ids\<close> of the source is \<open>target_player_ids\<close> here).
\<close>

record targets =
  target_values :: "nat \<Rightarrow> nat \<Rightarrow> real"
  target_rewards :: "nat \<Rightarrow> nat \<Rightarrow> real"
  target_children_visits :: "nat \<Rightarrow> nat \<Rightarrow> nat \<Rightarrow> real"
  taken_actions :: "nat \<Rightarrow> nat \<Rightarrow> int"
  target_player_ids :: "nat \<Rightarrow> nat \<Rightarrow> int"
  sample_len :: "nat \<Rightarrow> int"

definition targets_zero :: targets where
  "targets_zero =
     \<lparr> target_values = (\<lambda>_ _. 0),
       target_rewards = (\<lambda>_ _. 0),
       target_children_visits = (\<lambda>_ _ _. 0),
       taken_actions = (\<lambda>_ _. 0),
       target_player_ids = (\<lambda>_ _. 0),
       sample_len = (\<lambda>_. 0) \<rparr>"

text \<open>
  \<^verbatim>\<open>
  for bidx, sidx in zip(batch_index, start_index):
      initial_game_state.append(self.game_states[sidx][bidx, :, :, :])
  \<close>
  \<open>self.game_states\<close> is a Python list, indexed by the start index (negative indices
  count from the end); the snapshot found there is indexed by the position in the
  batch and has to be of rank four.
\<close>

fun initial_game_states :: "'o tensor list \<Rightarrow> nat \<Rightarrow> int list \<Rightarrow> error + 'o list" where
  "initial_game_states gs bidx [] = Inr []"
| "initial_game_states gs bidx (sidx # rest) =
     (case norm_index (length gs) sidx of
        Inl e \<Rightarrow> Inl e
      | Inr p \<Rightarrow>
          (case gs ! p of
             StateT os \<Rightarrow>
               (if bidx < length os then
                  (case initial_game_states gs (Suc bidx) rest of
                     Inl e \<Rightarrow> Inl e
                   | Inr xs \<Rightarrow> Inr (os ! bidx # xs))
                else Inl TorchError)
           | _ \<Rightarrow> Inl TorchError))"

text \<open>
  A tensor of the store has one row per slot, the start indices one entry per
  sample. Where the two meet, torch broadcasts: the sizes agree, or the store has a
  single slot, which then serves every sample. Any other combination raises in the
  first pass of the loop.
\<close>

definition broadcast_slot :: "hparams \<Rightarrow> nat \<Rightarrow> nat" where
  "broadcast_slot hp i = (if batch_size hp = 1 then 0 else i)"

fun sequence_results :: "(error + 'a) list \<Rightarrow> error + 'a list" where
  "sequence_results [] = Inr []"
| "sequence_results (r # rs) =
     (case r of
        Inl e \<Rightarrow> Inl e
      | Inr x \<Rightarrow> (case sequence_results rs of Inl e \<Rightarrow> Inl e | Inr xs \<Rightarrow> Inr (x # xs)))"

text \<open>
  \<^verbatim>\<open>
  values = torch.zeros(len(start_index), device=start_index.device).float()
  if bootstrap_update_index.sum() > 0:
      valid_batch_index = batch_index[bootstrap_update_index]
      last_discount = self.hparams.value_discount ** self.hparams.td_steps
      values[bootstrap_update_index] = self.root_values[valid_batch_index, bootstrap_index].float() * last_discount
  \<close>
  \<open>valid_batch_index\<close> has one entry per valid sample, \<open>bootstrap_index\<close> one per
  sample. Indexing \<open>root_values\<close> with both needs the two to broadcast, and the
  masked assignment needs as many values as valid samples: with some but not all
  samples valid, one of the two raises. With every sample valid, sample \<open>i\<close> reads
  \<open>root_values[i, bootstrap_index[i]]\<close>.
\<close>

definition bootstrap_values ::
  "hparams \<Rightarrow> 'o game_stats \<Rightarrow> int list \<Rightarrow> bool list \<Rightarrow> error + real list" where
  "bootstrap_values hp st bootstrap_index bootstrap_update_index =
     (let n = length bootstrap_index;
          valid_batch_index = filter (\<lambda>i. bootstrap_update_index ! i) [0..<n];
          last_discount = value_discount hp ^ td_steps hp
      in if valid_batch_index = [] then Inr (replicate n 0)
         else if length valid_batch_index \<noteq> n then Inl TorchError
         else sequence_results
                (map (\<lambda>i. if i < batch_size hp then
                             (case norm_index (max_episode_len hp) (bootstrap_index ! i) of
                                Inl e \<Rightarrow> Inl e
                              | Inr p \<Rightarrow> Inr (root_values st i p * last_discount))
                           else Inl TorchError)
                   valid_batch_index))"

text \<open>
  \<^verbatim>\<open>
  rewards = torch.where(all_rewards_index < start_unroll_index.unsqueeze(1), 0, self.rewards)
  rewards = torch.where(all_rewards_index >= bootstrap_index.unsqueeze(1), 0, rewards)
  \<close>
  One row of it, for the slot \<open>s\<close> that the sample reads.
\<close>

definition masked_rewards :: "hparams \<Rightarrow> 'o game_stats \<Rightarrow> nat \<Rightarrow> int \<Rightarrow> int \<Rightarrow> real list" where
  "masked_rewards hp st s start_unroll bootstrap =
     map (\<lambda>c. if int c \<ge> bootstrap then 0
              else if int c < start_unroll then 0
              else rewards st s c)
       [0..<max_episode_len hp]"

text \<open>
  \<open>rewards * discount\<close> on one row: the rows have \<open>max_episode_len\<close> and \<open>td_steps\<close>
  columns, and torch multiplies them when the two numbers agree or one of them is 1
  (that row is then repeated). The caller checks this.
\<close>

definition broadcastable :: "nat \<Rightarrow> nat \<Rightarrow> bool" where
  "broadcastable a b = (a = b \<or> b = 1 \<or> a = 1)"

definition mul_broadcast :: "real list \<Rightarrow> real list \<Rightarrow> real list" where
  "mul_broadcast xs ys =
     (if length xs = length ys then map (\<lambda>(x, y). x * y) (zip xs ys)
      else if length ys = 1 then map (\<lambda>x. x * hd ys) xs
      else map (\<lambda>y. hd xs * y) ys)"

text \<open>
  The first half of one pass of
  \<open>for unroll_step in range(0, self.hparams.num_unroll_steps+1)\<close>: the tensor \<open>values\<close>
  as it stands before it is written to \<open>target_values[:, unroll_step]\<close>.
  \<^verbatim>\<open>
  start_unroll_index = start_index + unroll_step
  bootstrap_index = start_unroll_index + self.hparams.td_steps
  bootstrap_update_index = bootstrap_index < self.episode_len
  values = ...
  discount = roll_by_gather(discount_mult, 1, start_unroll_index.unsqueeze(1))
  discounted_rewards = rewards * discount
  discounted_rewards = discounted_rewards.sum(1)
  values += discounted_rewards
  \<close>
  The checks stand where the source's operations raise: the comparison with
  \<open>self.episode_len\<close>, the bootstrap, and the product \<open>rewards * discount\<close>.
\<close>

definition step_values :: "hparams \<Rightarrow> 'o game_stats \<Rightarrow> int list \<Rightarrow> nat \<Rightarrow> error + real list" where
  "step_values hp st start_index k =
     (let n = length start_index;
          start_unroll_index = map (\<lambda>s. s + int k) start_index;
          bootstrap_index = map (\<lambda>s. s + int (td_steps hp)) start_unroll_index
      in if \<not> (n = batch_size hp \<or> batch_size hp = 1) then Inl TorchError
         else
           (let bootstrap_update_index =
                  map (\<lambda>i. bootstrap_index ! i < int (episode_len st (broadcast_slot hp i)))
                    [0..<n]
            in case bootstrap_values hp st bootstrap_index bootstrap_update_index of
                 Inl e \<Rightarrow> Inl e
               | Inr values0 \<Rightarrow>
                   if \<not> broadcastable (max_episode_len hp) (td_steps hp) then Inl TorchError
                   else
                     Inr (map (\<lambda>i. values0 ! i
                                + sum_list
                                    (mul_broadcast
                                       (masked_rewards hp st (broadcast_slot hp i)
                                          (start_unroll_index ! i) (bootstrap_index ! i))
                                       (roll_by_gather_row (discount_mult hp)
                                          (start_unroll_index ! i))))
                            [0..<n])))"

text \<open>
  The second half of the pass: the column \<open>unroll_step\<close> of every target is written,
  and \<open>sample_len\<close> is incremented where \<open>start_unroll_index < self.episode_len\<close>.
  \<^verbatim>\<open>
  target_values[:, unroll_step] = values
  target_children_visits[:, :, unroll_step] = self.children_visits[:, :, unroll_step].float()
  player_ids[:, unroll_step] = self.player_ids[:, unroll_step].long()
  target_rewards[:, unroll_step] = self.rewards[:, unroll_step].float()
  taken_actions[:, unroll_step] = self.actions[:, unroll_step].long()
  sample_len[start_unroll_valid_bool_index] += 1
  \<close>
  The column \<open>unroll_step\<close> of the store's buffers must exist, or the read raises.
\<close>

definition unroll_step :: "hparams \<Rightarrow> 'o game_stats \<Rightarrow> int list \<Rightarrow> nat \<Rightarrow> targets \<Rightarrow> error + targets" where
  "unroll_step hp st start_index k acc =
     (case step_values hp st start_index k of
        Inl e \<Rightarrow> Inl e
      | Inr vals \<Rightarrow>
          if \<not> k < max_episode_len hp then Inl TorchError
          else
            Inr (acc
              \<lparr> target_values :=
                  (\<lambda>i j. if i < length start_index \<and> j = k then vals ! i
                          else target_values acc i j),
                target_rewards :=
                  (\<lambda>i j. if i < length start_index \<and> j = k
                          then rewards st (broadcast_slot hp i) k
                          else target_rewards acc i j),
                target_children_visits :=
                  (\<lambda>i a j. if i < length start_index \<and> a < num_actions hp \<and> j = k
                            then children_visits st (broadcast_slot hp i) a k
                            else target_children_visits acc i a j),
                taken_actions :=
                  (\<lambda>i j. if i < length start_index \<and> j = k
                          then actions st (broadcast_slot hp i) k
                          else taken_actions acc i j),
                target_player_ids :=
                  (\<lambda>i j. if i < length start_index \<and> j = k
                          then player_ids st (broadcast_slot hp i) k
                          else target_player_ids acc i j),
                sample_len :=
                  (\<lambda>i. if i < length start_index
                          \<and> start_index ! i + int k < int (episode_len st (broadcast_slot hp i))
                        then sample_len acc i + 1
                        else sample_len acc i) \<rparr>))"

fun unroll_loop ::
  "hparams \<Rightarrow> 'o game_stats \<Rightarrow> int list \<Rightarrow> nat list \<Rightarrow> targets \<Rightarrow> error + targets" where
  "unroll_loop hp st start_index [] acc = Inr acc"
| "unroll_loop hp st start_index (k # ks) acc =
     (case unroll_step hp st start_index k acc of
        Inl e \<Rightarrow> Inl e
      | Inr acc' \<Rightarrow> unroll_loop hp st start_index ks acc')"

text \<open>
  \<open>make_target\<close>: the snapshots at the start indices, the loop over the unroll steps,
  and one \<open>TrainElement\<close> per sample, cut out of the filled tensors. The source
  raises a \<open>ValueError\<close> when \<open>start_index\<close> and \<open>self.episode_len\<close> are on different
  devices; all tensors of the model are on one device, so that branch is never taken.
\<close>

definition make_target ::
  "hparams \<Rightarrow> 'o game_stats \<Rightarrow> int list \<Rightarrow> error + 'o train_element list" where
  "make_target hp st start_index =
     (case initial_game_states (game_states st) 0 start_index of
        Inl e \<Rightarrow> Inl e
      | Inr initial_game_state \<Rightarrow>
          (case unroll_loop hp st start_index [0..<num_unroll_steps hp + 1] targets_zero of
             Inl e \<Rightarrow> Inl e
           | Inr acc \<Rightarrow>
               Inr (map (\<lambda>i.
                      \<lparr> te_start_index = start_index ! i,
                        te_values = map (target_values acc i) [0..<num_unroll_steps hp + 1],
                        te_rewards = map (target_rewards acc i) [0..<num_unroll_steps hp + 1],
                        te_children_visits =
                          map (\<lambda>a. map (target_children_visits acc i a)
                                      [0..<num_unroll_steps hp + 1])
                            [0..<num_actions hp],
                        te_initial_game_state = initial_game_state ! i,
                        te_actions = map (taken_actions acc i) [0..<num_unroll_steps hp + 1],
                        te_sample_len = sample_len acc i,
                        te_player_ids =
                          map (target_player_ids acc i) [0..<num_unroll_steps hp + 1] \<rparr>)
                    [0..<length start_index])))"


subsection \<open>Example inputs\<close>

definition hp_example :: hparams where
  "hp_example =
     \<lparr> batch_size = 2, max_episode_len = 3, num_actions = 2, num_unroll_steps = 1,
       td_steps = 1, value_discount = 1 \<rparr>"

definition stats_example :: "nat game_stats" where
  "stats_example =
     game_stats_init
       \<lparr> episode_len := (\<lambda>_. 0)(0 := 2),
         rewards := (\<lambda>_ _. 0)(0 := (\<lambda>_. 0)(0 := 1 / 2)) \<rparr>"

definition dict_example :: "(string \<times> nat tensor) list" where
  "dict_example =
     [(''children_visits'', FloatT2 [[1, 2], [3, 4]]),
      (''root_values'', FloatT [1 / 2, 1 / 4]),
      (''game_states'', StateT [7, 8]),
      (''rewards'', FloatT [0, 1]),
      (''actions'', LongT [1, 0]),
      (''dones'', BoolT [False, True]),
      (''player_ids'', LongT [1, 1])]"

definition stats_one_snapshot :: "nat game_stats" where
  "stats_one_snapshot =
     game_stats_init \<lparr> episode_len := (\<lambda>_. 0)(0 := 1), game_states := [StateT [1, 1]] \<rparr>"

definition stats_done_true :: "nat game_stats" where
  "stats_done_true =
     game_stats_init \<lparr> episode_len := (\<lambda>_. 0)(0 := 1), dones := (\<lambda>_. False)(0 := True) \<rparr>"

definition stats_done_false :: "nat game_stats" where
  "stats_done_false =
     game_stats_init \<lparr> episode_len := (\<lambda>_. 0)(0 := 1), dones := (\<lambda>_. False)(0 := False) \<rparr>"

text \<open>
  A store of two slots with two recorded steps each, and the windows that
  \<open>make_target\<close> returns for it at the start indices 0 and 1.
\<close>

definition stats_pair :: "int game_stats" where
  "stats_pair =
     game_stats_init
       \<lparr> episode_len := (\<lambda>_. 0)(0 := 2, 1 := 2),
         rewards := (\<lambda>_ _. 0)(0 := (\<lambda>_. 0)(0 := 1, 1 := 2), 1 := (\<lambda>_. 0)(0 := 3, 1 := 4)),
         root_values :=
           (\<lambda>_ _. 0)(0 := (\<lambda>_. 0)(0 := 10, 1 := 20), 1 := (\<lambda>_. 0)(0 := 30, 1 := 40)),
         children_visits :=
           (\<lambda>_ _ _. 0)(0 := (\<lambda>_ _. 0)(0 := (\<lambda>_. 0)(0 := 5, 1 := 6),
                                     1 := (\<lambda>_. 0)(0 := 7, 1 := 8))),
         game_states := [StateT [100, 101], StateT [200, 201]] \<rparr>"

definition hp_three :: hparams where
  "hp_three =
     \<lparr> batch_size = 1, max_episode_len = 3, num_actions = 1, num_unroll_steps = 0,
       td_steps = 3, value_discount = 1 / 2 \<rparr>"

definition stats_three :: "int game_stats" where
  "stats_three =
     game_stats_init
       \<lparr> episode_len := (\<lambda>_. 3),
         rewards := (\<lambda>_ _. 0)(0 := (\<lambda>_. 0)(2 := 1)),
         game_states := [StateT [100]] \<rparr>"


definition targets_pair_start1 :: "int train_element list" where
  "targets_pair_start1 =
     [\<lparr> te_start_index = 1, te_values = [2, 0], te_rewards = [1, 2],
        te_children_visits = [[5, 6], [7, 8]], te_initial_game_state = 200,
        te_actions = [0, 0], te_sample_len = 1, te_player_ids = [0, 0] \<rparr>,
      \<lparr> te_start_index = 1, te_values = [4, 0], te_rewards = [3, 4],
        te_children_visits = [[0, 0], [0, 0]], te_initial_game_state = 201,
        te_actions = [0, 0], te_sample_len = 1, te_player_ids = [0, 0] \<rparr>]"

definition stats_pair_late :: "int game_stats" where
  "stats_pair_late = stats_pair \<lparr> rewards := (rewards stats_pair)(0 := (rewards stats_pair 0)(2 := - 1)) \<rparr>"

definition stats_pair_early :: "int game_stats" where
  "stats_pair_early = stats_pair \<lparr> rewards := (rewards stats_pair)(0 := (rewards stats_pair 0)(0 := 99)) \<rparr>"


section \<open>Properties\<close>

subsection \<open>Indexing\<close>

lemma norm_index_nonneg: "0 \<le> i \<Longrightarrow> i < int n \<Longrightarrow> norm_index n i = Inr (nat i)"
  by (simp add: norm_index_def)

lemma norm_indices_length: "norm_indices n js = Inr ks \<Longrightarrow> length ks = length js"
  by (induction js arbitrary: ks) (auto split: sum.splits)

lemma norm_indices_nth:
  "norm_indices n js = Inr ks \<Longrightarrow> j < length js \<Longrightarrow> norm_index n (js ! j) = Inr (ks ! j)"
proof (induction js arbitrary: ks j)
  case Nil
  then show ?case by simp
next
  case (Cons i js)
  then show ?case by (cases j) (auto split: sum.splits)
qed

lemma norm_indices_all:
  "(\<And>j. j < length js \<Longrightarrow> norm_index n (js ! j) = Inr (f (js ! j)))
   \<Longrightarrow> norm_indices n js = Inr (map f js)"
proof (induction js)
  case Nil
  then show ?case by simp
next
  case (Cons i js)
  from Cons.prems [of 0] have h: "norm_index n i = Inr (f i)" by simp
  have "\<And>j. j < length js \<Longrightarrow> norm_index n (js ! j) = Inr (f (js ! j))"
    using Cons.prems [of "Suc _"] by simp
  then have "norm_indices n js = Inr (map f js)" by (rule Cons.IH)
  with h show ?case by simp
qed

lemma index_put2_other:
  "\<forall>q v. (s, q, v) \<in> set ws \<longrightarrow> q \<noteq> p \<Longrightarrow> index_put2 t ws s p = t s p"
proof (induction ws arbitrary: t)
  case Nil
  then show ?case by simp
next
  case (Cons w ws)
  obtain s' p' v' where w: "w = (s', p', v')" by (cases w)
  from Cons.prems have rest: "\<forall>q v. (s, q, v) \<in> set ws \<longrightarrow> q \<noteq> p" by simp
  from Cons.prems w have here: "s = s' \<longrightarrow> p' \<noteq> p" by auto
  have "index_put2 t (w # ws) s p = index_put2 (t(s' := (t s')(p' := v'))) ws s p"
    by (simp add: w)
  also have "\<dots> = (t(s' := (t s')(p' := v'))) s p" using rest by (rule Cons.IH)
  also have "\<dots> = t s p" using here by auto
  finally show ?case .
qed

lemma index_put2_hit:
  "distinct (map fst ws) \<Longrightarrow> (s, p, v) \<in> set ws \<Longrightarrow> index_put2 t ws s p = v"
proof (induction ws arbitrary: t)
  case Nil
  then show ?case by simp
next
  case (Cons w ws)
  obtain s' p' v' where w: "w = (s', p', v')" by (cases w)
  show ?case
  proof (cases "(s, p, v) = w")
    case True
    then have eq: "s' = s" "p' = p" "v' = v" using w by auto
    have "s \<notin> fst ` set ws" using Cons.prems(1) w eq by simp
    then have "\<forall>q u. (s, q, u) \<in> set ws \<longrightarrow> q \<noteq> p" by force
    then have "index_put2 (t(s := (t s)(p := v))) ws s p = (t(s := (t s)(p := v))) s p"
      by (rule index_put2_other)
    then show ?thesis by (simp add: w eq)
  next
    case False
    with Cons.prems have "(s, p, v) \<in> set ws" and "distinct (map fst ws)" by auto
    then have "index_put2 (t(s' := (t s')(p' := v'))) ws s p = v" by (rule Cons.IH [rotated])
    then show ?thesis by (simp add: w)
  qed
qed

subsection \<open>\<open>update_last_reward_and_values\<close>\<close>

lemma norm_index_pred:
  "norm_index n (int e - 1) = Inr p \<Longrightarrow> p = (if e = 0 then n - 1 else e - 1)"
  by (auto simp: norm_index_def split: if_splits)

lemma norm_index_pred_ok:
  "0 < n \<Longrightarrow> e \<le> n \<Longrightarrow> norm_index n (int e - 1) = Inr (if e = 0 then n - 1 else e - 1)"
  by (auto simp: norm_index_def)

lemma broadcast_to_same: "length vs = n \<Longrightarrow> broadcast_to n vs = Inr vs"
  by (simp add: broadcast_to_def)

lemma in_set_zip3:
  "length ps = length ss \<Longrightarrow> length vs = length ss \<Longrightarrow>
   (s, p, v) \<in> set (zip ss (zip ps vs)) \<longleftrightarrow> (\<exists>j<length ss. ss ! j = s \<and> ps ! j = p \<and> vs ! j = v)"
  by (auto simp: in_set_zip)

lemma update_last_result:
  assumes ok: "update_last_reward_and_values hp st win_index rs = Inr st'"
      and slots: "norm_indices (batch_size hp) win_index = Inr slots"
      and len: "length rs = length win_index"
  shows "\<exists>poss. length poss = length slots
           \<and> (\<forall>j<length slots. poss ! j =
                 (if episode_len st (slots ! j) = 0 then max_episode_len hp - 1
                  else episode_len st (slots ! j) - 1))
           \<and> st' = st\<lparr>rewards := index_put2 (rewards st) (zip slots (zip poss rs))\<rparr>"
proof -
  let ?L = "max_episode_len hp"
  have ls: "length slots = length win_index" using slots by (rule norm_indices_length)
  from ok slots obtain poss where
    poss: "norm_indices ?L (map (\<lambda>s. int (episode_len st s) - 1) slots) = Inr poss"
    by (auto simp: update_last_reward_and_values_def split: sum.splits)
  have lp: "length poss = length slots" using norm_indices_length [OF poss] by simp
  have bc: "broadcast_to (length slots) rs = Inr rs" using len ls by (simp add: broadcast_to_same)
  have st': "st' = st\<lparr>rewards := index_put2 (rewards st) (zip slots (zip poss rs))\<rparr>"
    using ok slots poss bc by (simp add: update_last_reward_and_values_def)
  have "poss ! j = (if episode_len st (slots ! j) = 0 then ?L - 1
                    else episode_len st (slots ! j) - 1)" if "j < length slots" for j
  proof -
    have "norm_index ?L (map (\<lambda>s. int (episode_len st s) - 1) slots ! j) = Inr (poss ! j)"
      using norm_indices_nth [OF poss] that by simp
    then have "norm_index ?L (int (episode_len st (slots ! j)) - 1) = Inr (poss ! j)"
      using that by simp
    then show ?thesis by (rule norm_index_pred)
  qed
  with lp st' show ?thesis by blast
qed

lemma update_last_rewards_hit:
  assumes ok: "update_last_reward_and_values hp st win_index rs = Inr st'"
      and slots: "norm_indices (batch_size hp) win_index = Inr slots"
      and dist: "distinct slots"
      and len: "length rs = length win_index"
      and j: "j < length slots"
  shows "rewards st' (slots ! j)
           (if episode_len st (slots ! j) = 0 then max_episode_len hp - 1
            else episode_len st (slots ! j) - 1) = rs ! j"
proof -
  have ls: "length slots = length win_index" using slots by (rule norm_indices_length)
  from update_last_result [OF ok slots len] obtain poss where
    lp: "length poss = length slots" and
    pj: "\<forall>j<length slots. poss ! j =
           (if episode_len st (slots ! j) = 0 then max_episode_len hp - 1
            else episode_len st (slots ! j) - 1)" and
    st': "st' = st\<lparr>rewards := index_put2 (rewards st) (zip slots (zip poss rs))\<rparr>"
    by blast
  have d: "distinct (map fst (zip slots (zip poss rs)))"
    using dist lp len ls by simp
  have "(slots ! j, poss ! j, rs ! j) \<in> set (zip slots (zip poss rs))"
    using j lp len ls by (auto simp: in_set_zip3)
  then have "index_put2 (rewards st) (zip slots (zip poss rs)) (slots ! j) (poss ! j) = rs ! j"
    using d by (rule index_put2_hit [rotated])
  then show ?thesis using pj j st' by simp
qed

lemma update_last_rewards_miss:
  assumes ok: "update_last_reward_and_values hp st win_index rs = Inr st'"
      and slots: "norm_indices (batch_size hp) win_index = Inr slots"
      and len: "length rs = length win_index"
      and other: "\<not> (s \<in> set slots
                    \<and> p = (if episode_len st s = 0 then max_episode_len hp - 1
                           else episode_len st s - 1))"
  shows "rewards st' s p = rewards st s p"
proof -
  have ls: "length slots = length win_index" using slots by (rule norm_indices_length)
  from update_last_result [OF ok slots len] obtain poss where
    lp: "length poss = length slots" and
    pj: "\<forall>j<length slots. poss ! j =
           (if episode_len st (slots ! j) = 0 then max_episode_len hp - 1
            else episode_len st (slots ! j) - 1)" and
    st': "st' = st\<lparr>rewards := index_put2 (rewards st) (zip slots (zip poss rs))\<rparr>"
    by blast
  have "\<forall>q v. (s, q, v) \<in> set (zip slots (zip poss rs)) \<longrightarrow> q \<noteq> p"
  proof (intro allI impI)
    fix q v
    assume "(s, q, v) \<in> set (zip slots (zip poss rs))"
    then obtain j where j: "j < length slots" "slots ! j = s" "poss ! j = q"
      using lp len ls by (auto simp: in_set_zip3)
    then have "s \<in> set slots"
      and "q = (if episode_len st s = 0 then max_episode_len hp - 1 else episode_len st s - 1)"
      using pj by auto
    with other show "q \<noteq> p" by auto
  qed
  then have "index_put2 (rewards st) (zip slots (zip poss rs)) s p = rewards st s p"
    by (rule index_put2_other)
  then show ?thesis using st' by simp
qed

lemma update_last_succeeds:
  assumes slots: "norm_indices (batch_size hp) win_index = Inr slots"
      and len: "length rs = length win_index"
      and L: "0 < max_episode_len hp"
      and bound: "\<forall>s\<in>set slots. episode_len st s \<le> max_episode_len hp"
  shows "\<exists>st'. update_last_reward_and_values hp st win_index rs = Inr st'"
proof -
  let ?L = "max_episode_len hp"
  let ?js = "map (\<lambda>s. int (episode_len st s) - 1) slots"
  have ls: "length slots = length win_index" using slots by (rule norm_indices_length)
  have "norm_index ?L (?js ! j) = Inr (nat ((?js ! j) mod int ?L))" if "j < length ?js" for j
  proof -
    have "episode_len st (slots ! j) \<le> ?L" using bound that by simp
    then show ?thesis using L that
      by (cases "episode_len st (slots ! j) = 0") (auto simp: norm_index_def zmod_minus1)
  qed
  then have "norm_indices ?L ?js = Inr (map (\<lambda>i. nat (i mod int ?L)) ?js)"
    by (rule norm_indices_all)
  moreover have "broadcast_to (length slots) rs = Inr rs"
    using len ls by (simp add: broadcast_to_same)
  ultimately show ?thesis using slots by (simp add: update_last_reward_and_values_def)
qed

text \<open>
  Claim C5. A call of \<open>update_last_reward_and_values\<close> that returns has overwritten,
  for each target slot, exactly the reward at position \<open>episode_len[slot] - 1\<close> with
  the value supplied for that slot (for an episode length of zero the position \<open>-1\<close>
  is the last one of the buffer, \<open>max_episode_len - 1\<close>). Every other reward entry,
  of target and of other slots, is as before, and so are \<open>episode_len\<close>, the root
  values, visit counts, actions, player ids, done flags and snapshots. The target
  slots are distinct and each has its own reward value.
\<close>

theorem update_last_reward_frame:
  assumes ok: "update_last_reward_and_values hp st win_index rs = Inr st'"
      and slots: "norm_indices (batch_size hp) win_index = Inr slots"
      and dist: "distinct slots"
      and len: "length rs = length win_index"
  shows "(\<forall>j<length slots.
            rewards st' (slots ! j)
              (if episode_len st (slots ! j) = 0 then max_episode_len hp - 1
               else episode_len st (slots ! j) - 1) = rs ! j)
       \<and> (\<forall>s p. \<not> (s \<in> set slots
                    \<and> p = (if episode_len st s = 0 then max_episode_len hp - 1
                           else episode_len st s - 1))
               \<longrightarrow> rewards st' s p = rewards st s p)
       \<and> episode_len st' = episode_len st
       \<and> root_values st' = root_values st
       \<and> children_visits st' = children_visits st
       \<and> actions st' = actions st
       \<and> player_ids st' = player_ids st
       \<and> dones st' = dones st
       \<and> game_states st' = game_states st"
proof -
  have "\<exists>poss. st' = st\<lparr>rewards := index_put2 (rewards st) (zip slots (zip poss rs))\<rparr>"
    using update_last_result [OF ok slots len] by blast
  then have other: "episode_len st' = episode_len st \<and> root_values st' = root_values st
       \<and> children_visits st' = children_visits st \<and> actions st' = actions st
       \<and> player_ids st' = player_ids st \<and> dones st' = dones st
       \<and> game_states st' = game_states st"
    by auto
  show ?thesis
    using update_last_rewards_hit [OF ok slots dist len]
      update_last_rewards_miss [OF ok slots len] other
    by blast
qed

text \<open>
  The frame property at a batch of two slots: slot 0 has two recorded steps, slot 1 none.
\<close>

theorem update_last_reward_frame_witness:
  "\<exists>st'. update_last_reward_and_values hp_example stats_example [0, 1] [- 1, - 1] = Inr st'
     \<and> norm_indices (batch_size hp_example) [0, 1] = Inr [0, 1]
     \<and> distinct [0, 1 :: nat]
     \<and> rewards st' 0 1 = - 1
     \<and> rewards st' 1 2 = - 1
     \<and> rewards st' 0 0 = 1 / 2
     \<and> rewards st' 1 1 = 0
     \<and> episode_len st' = episode_len stats_example
     \<and> root_values st' = root_values stats_example
     \<and> dones st' = dones stats_example"
proof -
  have slots: "norm_indices (batch_size hp_example) [0, 1] = Inr [0, 1]"
    by (simp add: hp_example_def norm_index_def)
  obtain st' where
    ok: "update_last_reward_and_values hp_example stats_example [0, 1] [- 1, - 1] = Inr st'"
    using update_last_succeeds [OF slots, of "[- 1, - 1]" stats_example]
    by (auto simp: hp_example_def stats_example_def)
  have dist: "distinct [0, 1 :: nat]" by simp
  have fr: "(\<forall>j<length [0, 1 :: nat].
            rewards st' ([0, 1] ! j)
              (if episode_len stats_example ([0, 1] ! j) = 0 then max_episode_len hp_example - 1
               else episode_len stats_example ([0, 1] ! j) - 1) = [- 1, - 1] ! j)
       \<and> (\<forall>s p. \<not> (s \<in> set [0, 1]
                    \<and> p = (if episode_len stats_example s = 0 then max_episode_len hp_example - 1
                           else episode_len stats_example s - 1))
               \<longrightarrow> rewards st' s p = rewards stats_example s p)
       \<and> episode_len st' = episode_len stats_example
       \<and> root_values st' = root_values stats_example
       \<and> children_visits st' = children_visits stats_example
       \<and> actions st' = actions stats_example
       \<and> player_ids st' = player_ids stats_example
       \<and> dones st' = dones stats_example
       \<and> game_states st' = game_states stats_example"
    by (rule update_last_reward_frame [OF ok slots dist]) simp
  note hit = fr [THEN conjunct1, rule_format]
  note miss = fr [THEN conjunct2, THEN conjunct1, rule_format]
  note rest = fr [THEN conjunct2, THEN conjunct2]
  have h0: "rewards st' 0 1 = - 1"
    using hit [of 0] by (simp add: stats_example_def hp_example_def)
  have h1: "rewards st' 1 2 = - 1"
    using hit [of 1] by (simp add: stats_example_def hp_example_def game_stats_init_def)
  have m0: "rewards st' 0 0 = 1 / 2"
    using miss [of 0 0] by (simp add: stats_example_def hp_example_def game_stats_init_def)
  have m1: "rewards st' 1 1 = 0"
    using miss [of 1 1] by (simp add: stats_example_def hp_example_def game_stats_init_def)
  show ?thesis using ok slots h0 h1 m0 m1 rest by simp
qed

text \<open>
  Claim C10. When a target slot has \<open>episode_len = 0\<close>, the call does not raise: the
  position \<open>-1\<close> is read as the last buffer position and the reward at
  \<open>max_episode_len - 1\<close> of that slot is overwritten. (The buffer has at least one
  position, the targets are distinct slots of the batch with one reward value each,
  and no target has more steps than the buffer holds.)
\<close>

theorem update_last_reward_empty_episode:
  assumes slots: "norm_indices (batch_size hp) win_index = Inr slots"
      and dist: "distinct slots"
      and len: "length rs = length win_index"
      and L: "0 < max_episode_len hp"
      and bound: "\<forall>s\<in>set slots. episode_len st s \<le> max_episode_len hp"
      and j: "j < length slots"
      and zero: "episode_len st (slots ! j) = 0"
  shows "\<exists>st'. update_last_reward_and_values hp st win_index rs = Inr st'
           \<and> rewards st' (slots ! j) (max_episode_len hp - 1) = rs ! j"
proof -
  from update_last_succeeds [OF slots len L bound] obtain st' where
    ok: "update_last_reward_and_values hp st win_index rs = Inr st'" by blast
  from update_last_rewards_hit [OF ok slots dist len j] zero
  have "rewards st' (slots ! j) (max_episode_len hp - 1) = rs ! j" by simp
  with ok show ?thesis by blast
qed

text \<open>The same on the freshly constructed store, where every episode is empty.\<close>

theorem update_last_reward_empty_episode_witness:
  "norm_indices (batch_size hp_example) [1] = Inr [1]
   \<and> episode_len (game_stats_init :: nat game_stats) 1 = 0
   \<and> (\<exists>st'. update_last_reward_and_values hp_example (game_stats_init :: nat game_stats)
               [1] [- 1] = Inr st'
           \<and> rewards st' 1 2 = - 1)"
proof -
  have slots: "norm_indices (batch_size hp_example) [1] = Inr [1]"
    by (simp add: hp_example_def norm_index_def)
  have "\<exists>st'. update_last_reward_and_values hp_example (game_stats_init :: nat game_stats)
               [1] [- 1] = Inr st'
           \<and> rewards st' ([1] ! 0) (max_episode_len hp_example - 1) = [- 1] ! 0"
    by (rule update_last_reward_empty_episode [OF slots])
       (simp_all add: hp_example_def game_stats_init_def)
  then show ?thesis using slots by (simp add: hp_example_def game_stats_init_def)
qed

subsection \<open>\<open>append\<close>\<close>

lemma index_put1_other: "s \<notin> fst ` set ws \<Longrightarrow> index_put1 t ws s = t s"
proof (induction ws arbitrary: t)
  case Nil
  then show ?case by simp
next
  case (Cons w ws)
  obtain s' v' where w: "w = (s', v')" by (cases w)
  from Cons.prems w have ne: "s \<noteq> s'" and rest: "s \<notin> fst ` set ws" by auto
  have "index_put1 t (w # ws) s = index_put1 (t(s' := v')) ws s" by (simp add: w)
  also have "\<dots> = (t(s' := v')) s" using rest by (rule Cons.IH)
  also have "\<dots> = t s" using ne by simp
  finally show ?case .
qed

lemma index_put1_hit:
  "distinct (map fst ws) \<Longrightarrow> (s, v) \<in> set ws \<Longrightarrow> index_put1 t ws s = v"
proof (induction ws arbitrary: t)
  case Nil
  then show ?case by simp
next
  case (Cons w ws)
  obtain s' v' where w: "w = (s', v')" by (cases w)
  show ?case
  proof (cases "(s, v) = w")
    case True
    then have eq: "s' = s" "v' = v" using w by auto
    have "s \<notin> fst ` set ws" using Cons.prems(1) w eq by simp
    then have "index_put1 (t(s := v)) ws s = (t(s := v)) s" by (rule index_put1_other)
    then show ?thesis by (simp add: w eq)
  next
    case False
    with Cons.prems have "(s, v) \<in> set ws" and "distinct (map fst ws)" by auto
    then have "index_put1 (t(s' := v')) ws s = v" by (rule Cons.IH [rotated])
    then show ?thesis by (simp add: w)
  qed
qed

lemma index_put3_other:
  "\<forall>q row. (s, q, row) \<in> set ws \<longrightarrow> q \<noteq> p \<Longrightarrow> index_put3 t ws s a p = t s a p"
proof (induction ws arbitrary: t)
  case Nil
  then show ?case by simp
next
  case (Cons w ws)
  obtain s' p' r' where w: "w = (s', p', r')" by (cases w)
  let ?t = "t(s' := (\<lambda>a. if a < length r' then (t s' a)(p' := r' ! a) else t s' a))"
  from Cons.prems have rest: "\<forall>q row. (s, q, row) \<in> set ws \<longrightarrow> q \<noteq> p" by simp
  from Cons.prems w have here: "s = s' \<longrightarrow> p' \<noteq> p" by auto
  have "index_put3 t (w # ws) s a p = index_put3 ?t ws s a p" by (simp add: w)
  also have "\<dots> = ?t s a p" using rest by (rule Cons.IH)
  also have "\<dots> = t s a p" using here by auto
  finally show ?case .
qed

lemma index_put3_hit:
  "distinct (map fst ws) \<Longrightarrow> (s, p, row) \<in> set ws \<Longrightarrow> a < length row
   \<Longrightarrow> index_put3 t ws s a p = row ! a"
proof (induction ws arbitrary: t)
  case Nil
  then show ?case by simp
next
  case (Cons w ws)
  obtain s' p' r' where w: "w = (s', p', r')" by (cases w)
  let ?t = "t(s' := (\<lambda>a. if a < length r' then (t s' a)(p' := r' ! a) else t s' a))"
  show ?case
  proof (cases "(s, p, row) = w")
    case True
    then have w': "w = (s, p, row)" by simp
    let ?u = "t(s := (\<lambda>a. if a < length row then (t s a)(p := row ! a) else t s a))"
    have "s \<notin> fst ` set ws" using Cons.prems(1) w' by simp
    then have "\<forall>q u. (s, q, u) \<in> set ws \<longrightarrow> q \<noteq> p" by force
    then have "index_put3 ?u ws s a p = ?u s a p" by (rule index_put3_other)
    also have "\<dots> = row ! a" using Cons.prems(3) by simp
    finally show ?thesis by (simp add: w')
  next
    case False
    with Cons.prems have "(s, p, row) \<in> set ws" and "distinct (map fst ws)" by auto
    then have "index_put3 ?t ws s a p = row ! a" using Cons.prems(3) Cons.IH by blast
    then show ?thesis by (simp add: w)
  qed
qed

lemma broadcast_rows_same:
  "\<forall>r\<in>set rs. length r = A \<Longrightarrow> broadcast_rows A rs = Inr rs"
  by (induction rs) (simp_all add: broadcast_to_def)

lemma store_field_frame:
  assumes "store_field hp slots eps key v st = Inr st'" and "key \<in> set stored_tensors"
  shows "episode_len st' = episode_len st
       \<and> (key \<noteq> ''rewards'' \<longrightarrow> rewards st' = rewards st)
       \<and> (key \<noteq> ''root_values'' \<longrightarrow> root_values st' = root_values st)
       \<and> (key \<noteq> ''children_visits'' \<longrightarrow> children_visits st' = children_visits st)
       \<and> (key \<noteq> ''actions'' \<longrightarrow> actions st' = actions st)
       \<and> (key \<noteq> ''player_ids'' \<longrightarrow> player_ids st' = player_ids st)
       \<and> (key \<noteq> ''dones'' \<longrightarrow> dones st' = dones st)
       \<and> (key \<noteq> ''game_states'' \<longrightarrow> game_states st' = game_states st)"
  using assms
  by (auto simp: store_field_def stored_tensors_def split: if_splits tensor.splits sum.splits)


lemma append_loop_episode_len:
  "append_loop hp slots eps d st = Inr st' \<Longrightarrow> episode_len st' = episode_len st"
proof (induction d arbitrary: st)
  case Nil
  then show ?case by simp
next
  case (Cons kv d)
  obtain k v where kv: "kv = (k, v)" by (cases kv)
  from Cons.prems kv have known: "k \<in> set stored_tensors"
    by (auto split: if_splits)
  with Cons.prems kv obtain st1 where
    s1: "store_field hp slots eps k v st = Inr st1" and
    s2: "append_loop hp slots eps d st1 = Inr st'"
    by (auto split: sum.splits)
  from store_field_frame [OF s1 known] Cons.IH [OF s2] show ?case by simp
qed

text \<open>
  What the loop leaves in one buffer: when the keys are distinct, the buffer read by
  \<open>P\<close> is as the one write under its key left it.
\<close>

lemma append_loop_untouched:
  assumes "append_loop hp slots eps d st = Inr st'"
      and "k \<notin> fst ` set d"
      and pres: "\<And>k' v' s s'. k' \<noteq> k \<Longrightarrow> k' \<in> set stored_tensors
                  \<Longrightarrow> store_field hp slots eps k' v' s = Inr s' \<Longrightarrow> P s' = P s"
  shows "P st' = P st"
  using assms(1,2)
proof (induction d arbitrary: st)
  case Nil
  then show ?case by simp
next
  case (Cons kv d)
  obtain k' v where kv: "kv = (k', v)" by (cases kv)
  from Cons.prems kv have known: "k' \<in> set stored_tensors"
    by (auto split: if_splits)
  with Cons.prems kv obtain st1 where
    s1: "store_field hp slots eps k' v st = Inr st1" and
    s2: "append_loop hp slots eps d st1 = Inr st'"
    by (auto split: sum.splits)
  from Cons.prems(2) kv have ne: "k' \<noteq> k" and rest: "k \<notin> fst ` set d" by auto
  have "P st' = P st1" using s2 rest by (rule Cons.IH)
  also have "\<dots> = P st" using ne known s1 by (rule pres)
  finally show ?case .
qed

lemma append_loop_field:
  assumes "append_loop hp slots eps d st = Inr st'"
      and "distinct (map fst d)"
      and "(k, v) \<in> set d"
      and pres: "\<And>k' v' s s'. k' \<noteq> k \<Longrightarrow> k' \<in> set stored_tensors
                  \<Longrightarrow> store_field hp slots eps k' v' s = Inr s' \<Longrightarrow> P s' = P s"
  shows "\<exists>s1 s2. store_field hp slots eps k v s1 = Inr s2 \<and> P s1 = P st \<and> P st' = P s2"
  using assms(1,2,3)
proof (induction d arbitrary: st)
  case Nil
  then show ?case by simp
next
  case (Cons kv d)
  obtain k' v' where kv: "kv = (k', v')" by (cases kv)
  from Cons.prems kv have known: "k' \<in> set stored_tensors"
    by (auto split: if_splits)
  with Cons.prems kv obtain st1 where
    s1: "store_field hp slots eps k' v' st = Inr st1" and
    s2: "append_loop hp slots eps d st1 = Inr st'"
    by (auto split: sum.splits)
  show ?case
  proof (cases "(k, v) = kv")
    case True
    then have eq: "k' = k" "v' = v" using kv by auto
    have "k \<notin> fst ` set d" using Cons.prems(2) kv eq by simp
    with s2 have "P st' = P st1" using pres by (rule append_loop_untouched)
    with s1 eq show ?thesis by blast
  next
    case False
    with Cons.prems kv have mem: "(k, v) \<in> set d" and dist: "distinct (map fst d)"
      and ne: "k' \<noteq> k" by force+
    from Cons.IH [OF s2 dist mem] obtain a b where
      ab: "store_field hp slots eps k v a = Inr b" "P a = P st1" "P st' = P b" by blast
    have "P st1 = P st" using ne known s1 by (rule pres)
    with ab show ?thesis by auto
  qed
qed


lemma in_set_zip2:
  "length vs = length ss \<Longrightarrow>
   (s, v) \<in> set (zip ss vs) \<longleftrightarrow> (\<exists>j<length ss. ss ! j = s \<and> vs ! j = v)"
  by (auto simp: in_set_zip)

lemma put_steps_hit:
  assumes "put_steps L slots eps vs t = Inr t'"
      and "distinct slots" and "length eps = length slots" and "length vs = length slots"
      and "j < length slots"
  shows "t' (slots ! j) (eps ! j) = vs ! j"
proof -
  from assms(1,4) have t': "t' = index_put2 t (zip slots (zip eps vs))"
    by (auto simp: put_steps_def broadcast_to_def split: if_splits)
  have "distinct (map fst (zip slots (zip eps vs)))" using assms(2,3,4) by simp
  moreover have "(slots ! j, eps ! j, vs ! j) \<in> set (zip slots (zip eps vs))"
    using assms(3,4,5) by (auto simp: in_set_zip3)
  ultimately show ?thesis unfolding t' by (rule index_put2_hit)
qed

lemma put_flags_hit:
  assumes "put_flags slots vs t = Inr t'"
      and "distinct slots" and "length vs = length slots" and "j < length slots"
  shows "t' (slots ! j) = vs ! j"
proof -
  from assms(1,3) have t': "t' = index_put1 t (zip slots vs)"
    by (auto simp: put_flags_def broadcast_to_def split: if_splits)
  have "distinct (map fst (zip slots vs))" using assms(2,3) by simp
  moreover have "(slots ! j, vs ! j) \<in> set (zip slots vs)"
    using assms(3,4) by (auto simp: in_set_zip2)
  ultimately show ?thesis unfolding t' by (rule index_put1_hit)
qed

lemma put_flags_other:
  assumes "put_flags slots vs t = Inr t'" and "s \<notin> set slots"
  shows "t' s = t s"
proof -
  from assms(1) obtain ws where t': "t' = index_put1 t (zip slots ws)"
    by (auto simp: put_flags_def split: sum.splits)
  have "s \<notin> fst ` set (zip slots ws)" using assms(2) by (auto dest: set_zip_leftD)
  then show ?thesis unfolding t' by (rule index_put1_other)
qed

lemma put_visits_hit:
  assumes "put_visits A L slots eps rows t = Inr t'"
      and "length eps = length slots" and "length rows = length slots"
      and "\<forall>r\<in>set rows. length r = A"
      and "j < length slots" and "a < A"
  shows "t' (slots ! j) a (eps ! j) = rows ! j ! a"
proof -
  have rs: "broadcast_to (length slots) rows = Inr rows"
    using assms(3) by (simp add: broadcast_to_def)
  have ws: "broadcast_rows A rows = Inr rows" using assms(4) by (rule broadcast_rows_same)
  from assms(1) rs ws have
    chk: "list_all (\<lambda>(s, p, row). list_all (\<lambda>a. row ! a = t' s a p) [0..<A])
            (zip slots (zip eps rows))"
    by (auto simp: put_visits_def Let_def split: if_splits)
  have "(slots ! j, eps ! j, rows ! j) \<in> set (zip slots (zip eps rows))"
    using assms(2,3,5) by (auto simp: in_set_zip3)
  with chk have "list_all (\<lambda>a. rows ! j ! a = t' (slots ! j) a (eps ! j)) [0..<A]"
    by (auto simp: list_all_iff)
  with assms(6) show ?thesis by (simp add: list_all_iff)
qed

lemma append_stats_loop:
  assumes ok: "append_stats hp st index d = Inr st'"
      and slots: "norm_indices (batch_size hp) index = Inr slots"
  shows "\<exists>st1. append_loop hp slots (map (episode_len st) slots) d st = Inr st1
           \<and> st' = st1\<lparr>episode_len :=
                      index_put1 (episode_len st)
                        (zip slots (map (\<lambda>s. episode_len st s + 1) slots))\<rparr>"
proof -
  from ok slots obtain st1 where
    l: "append_loop hp slots (map (episode_len st) slots) d st = Inr st1" and
    s: "st' = st1\<lparr>episode_len :=
                      index_put1 (episode_len st1)
                        (zip slots (map (\<lambda>s. episode_len st1 s + 1) slots))\<rparr>"
    by (auto simp: append_stats_def split: sum.splits)
  have "episode_len st1 = episode_len st" using l by (rule append_loop_episode_len)
  with l s show ?thesis by auto
qed

lemma append_stats_episode_len:
  assumes ok: "append_stats hp st index d = Inr st'"
      and slots: "norm_indices (batch_size hp) index = Inr slots"
      and dist: "distinct slots"
  shows "episode_len st' s = (if s \<in> set slots then episode_len st s + 1 else episode_len st s)"
proof -
  let ?ws = "zip slots (map (\<lambda>s. episode_len st s + 1) slots)"
  from append_stats_loop [OF ok slots]
  have e: "episode_len st' = index_put1 (episode_len st) ?ws" by auto
  show ?thesis
  proof (cases "s \<in> set slots")
    case True
    then have "(s, episode_len st s + 1) \<in> set ?ws"
      by (auto simp: in_set_zip2 in_set_conv_nth)
    moreover have "distinct (map fst ?ws)" using dist by simp
    ultimately have "index_put1 (episode_len st) ?ws s = episode_len st s + 1"
      by (rule index_put1_hit [rotated])
    with True e show ?thesis by simp
  next
    case False
    then have "s \<notin> fst ` set ?ws" by (auto dest: set_zip_leftD)
    then have "index_put1 (episode_len st) ?ws s = episode_len st s" by (rule index_put1_other)
    with False e show ?thesis by simp
  qed
qed

lemma append_stats_field:
  assumes ok: "append_stats hp st index d = Inr st'"
      and slots: "norm_indices (batch_size hp) index = Inr slots"
      and keys: "distinct (map fst d)"
      and mem: "(k, v) \<in> set d"
      and pres: "\<And>k' v' s s'. k' \<noteq> k \<Longrightarrow> k' \<in> set stored_tensors
                  \<Longrightarrow> store_field hp slots (map (episode_len st) slots) k' v' s = Inr s'
                  \<Longrightarrow> P s' = P s"
      and upd: "\<And>s f. P (s\<lparr>episode_len := f\<rparr>) = P s"
  shows "\<exists>s1 s2. store_field hp slots (map (episode_len st) slots) k v s1 = Inr s2
           \<and> P s1 = P st \<and> P st' = P s2"
proof -
  from append_stats_loop [OF ok slots] obtain st1 where
    l: "append_loop hp slots (map (episode_len st) slots) d st = Inr st1" and
    s: "P st' = P st1" using upd by auto
  from append_loop_field [OF l keys mem, of P] pres s show ?thesis by auto
qed


lemma append_stats_rewards:
  fixes st :: "'o game_stats"
  assumes ok: "append_stats hp st index d = Inr st'"
      and slots: "norm_indices (batch_size hp) index = Inr slots"
      and dist: "distinct slots"
      and keys: "distinct (map fst d)"
      and mem: "(''rewards'', FloatT vs) \<in> set d"
      and len: "length vs = length slots"
      and j: "j < length slots"
  shows "rewards st' (slots ! j) (episode_len st (slots ! j)) = vs ! j"
proof -
  let ?eps = "map (episode_len st) slots"
  have "\<exists>(s1 :: 'o game_stats) s2. store_field hp slots ?eps ''rewards'' (FloatT vs) s1 = Inr s2
          \<and> rewards s1 = rewards st \<and> rewards st' = rewards s2"
  proof (rule append_stats_field [where P = rewards, OF ok slots keys mem])
    fix k' v' s s'
    assume "k' \<noteq> ''rewards''" "k' \<in> set stored_tensors"
      "store_field hp slots ?eps k' v' s = Inr s'"
    then show "rewards s' = rewards s" using store_field_frame by blast
  qed simp
  then obtain s1 :: "'o game_stats" and s2 where
    sf: "store_field hp slots ?eps ''rewards'' (FloatT vs) s1 = Inr s2" and
    eq: "rewards st' = rewards s2" by blast
  from sf have "put_steps (max_episode_len hp) slots ?eps vs (rewards s1) = Inr (rewards s2)"
    by (auto simp: store_field_def split: sum.splits)
  then have "rewards s2 (slots ! j) (?eps ! j) = vs ! j"
    using dist _ len j by (rule put_steps_hit) simp
  with eq j show ?thesis by simp
qed

lemma append_stats_root_values:
  fixes st :: "'o game_stats"
  assumes ok: "append_stats hp st index d = Inr st'"
      and slots: "norm_indices (batch_size hp) index = Inr slots"
      and dist: "distinct slots"
      and keys: "distinct (map fst d)"
      and mem: "(''root_values'', FloatT vs) \<in> set d"
      and len: "length vs = length slots"
      and j: "j < length slots"
  shows "root_values st' (slots ! j) (episode_len st (slots ! j)) = vs ! j"
proof -
  let ?eps = "map (episode_len st) slots"
  have "\<exists>(s1 :: 'o game_stats) s2. store_field hp slots ?eps ''root_values'' (FloatT vs) s1 = Inr s2
          \<and> root_values s1 = root_values st \<and> root_values st' = root_values s2"
  proof (rule append_stats_field [where P = root_values, OF ok slots keys mem])
    fix k' v' s s'
    assume "k' \<noteq> ''root_values''" "k' \<in> set stored_tensors"
      "store_field hp slots ?eps k' v' s = Inr s'"
    then show "root_values s' = root_values s" using store_field_frame by blast
  qed simp
  then obtain s1 :: "'o game_stats" and s2 where
    sf: "store_field hp slots ?eps ''root_values'' (FloatT vs) s1 = Inr s2" and
    eq: "root_values st' = root_values s2" by blast
  from sf have "put_steps (max_episode_len hp) slots ?eps vs (root_values s1) = Inr (root_values s2)"
    by (auto simp: store_field_def split: sum.splits)
  then have "root_values s2 (slots ! j) (?eps ! j) = vs ! j"
    using dist _ len j by (rule put_steps_hit) simp
  with eq j show ?thesis by simp
qed

lemma append_stats_actions:
  fixes st :: "'o game_stats"
  assumes ok: "append_stats hp st index d = Inr st'"
      and slots: "norm_indices (batch_size hp) index = Inr slots"
      and dist: "distinct slots"
      and keys: "distinct (map fst d)"
      and mem: "(''actions'', LongT vs) \<in> set d"
      and len: "length vs = length slots"
      and j: "j < length slots"
  shows "actions st' (slots ! j) (episode_len st (slots ! j)) = vs ! j"
proof -
  let ?eps = "map (episode_len st) slots"
  have "\<exists>(s1 :: 'o game_stats) s2. store_field hp slots ?eps ''actions'' (LongT vs) s1 = Inr s2
          \<and> actions s1 = actions st \<and> actions st' = actions s2"
  proof (rule append_stats_field [where P = actions, OF ok slots keys mem])
    fix k' v' s s'
    assume "k' \<noteq> ''actions''" "k' \<in> set stored_tensors"
      "store_field hp slots ?eps k' v' s = Inr s'"
    then show "actions s' = actions s" using store_field_frame by blast
  qed simp
  then obtain s1 :: "'o game_stats" and s2 where
    sf: "store_field hp slots ?eps ''actions'' (LongT vs) s1 = Inr s2" and
    eq: "actions st' = actions s2" by blast
  from sf have "put_steps (max_episode_len hp) slots ?eps vs (actions s1) = Inr (actions s2)"
    by (auto simp: store_field_def split: sum.splits)
  then have "actions s2 (slots ! j) (?eps ! j) = vs ! j"
    using dist _ len j by (rule put_steps_hit) simp
  with eq j show ?thesis by simp
qed

lemma append_stats_player_ids:
  fixes st :: "'o game_stats"
  assumes ok: "append_stats hp st index d = Inr st'"
      and slots: "norm_indices (batch_size hp) index = Inr slots"
      and dist: "distinct slots"
      and keys: "distinct (map fst d)"
      and mem: "(''player_ids'', LongT vs) \<in> set d"
      and len: "length vs = length slots"
      and j: "j < length slots"
  shows "player_ids st' (slots ! j) (episode_len st (slots ! j)) = vs ! j"
proof -
  let ?eps = "map (episode_len st) slots"
  have "\<exists>(s1 :: 'o game_stats) s2. store_field hp slots ?eps ''player_ids'' (LongT vs) s1 = Inr s2
          \<and> player_ids s1 = player_ids st \<and> player_ids st' = player_ids s2"
  proof (rule append_stats_field [where P = player_ids, OF ok slots keys mem])
    fix k' v' s s'
    assume "k' \<noteq> ''player_ids''" "k' \<in> set stored_tensors"
      "store_field hp slots ?eps k' v' s = Inr s'"
    then show "player_ids s' = player_ids s" using store_field_frame by blast
  qed simp
  then obtain s1 :: "'o game_stats" and s2 where
    sf: "store_field hp slots ?eps ''player_ids'' (LongT vs) s1 = Inr s2" and
    eq: "player_ids st' = player_ids s2" by blast
  from sf have "put_steps (max_episode_len hp) slots ?eps vs (player_ids s1) = Inr (player_ids s2)"
    by (auto simp: store_field_def split: sum.splits)
  then have "player_ids s2 (slots ! j) (?eps ! j) = vs ! j"
    using dist _ len j by (rule put_steps_hit) simp
  with eq j show ?thesis by simp
qed

lemma append_stats_children_visits:
  fixes st :: "'o game_stats"
  assumes ok: "append_stats hp st index d = Inr st'"
      and slots: "norm_indices (batch_size hp) index = Inr slots"
      and keys: "distinct (map fst d)"
      and mem: "(''children_visits'', FloatT2 rows) \<in> set d"
      and len: "length rows = length slots"
      and wide: "\<forall>r\<in>set rows. length r = num_actions hp"
      and j: "j < length slots"
      and a: "a < num_actions hp"
  shows "children_visits st' (slots ! j) a (episode_len st (slots ! j)) = rows ! j ! a"
proof -
  let ?eps = "map (episode_len st) slots"
  have "\<exists>(s1 :: 'o game_stats) s2. store_field hp slots ?eps ''children_visits'' (FloatT2 rows) s1 = Inr s2
          \<and> children_visits s1 = children_visits st \<and> children_visits st' = children_visits s2"
  proof (rule append_stats_field [where P = children_visits, OF ok slots keys mem])
    fix k' v' s s'
    assume "k' \<noteq> ''children_visits''" "k' \<in> set stored_tensors"
      "store_field hp slots ?eps k' v' s = Inr s'"
    then show "children_visits s' = children_visits s" using store_field_frame by blast
  qed simp
  then obtain s1 :: "'o game_stats" and s2 where
    sf: "store_field hp slots ?eps ''children_visits'' (FloatT2 rows) s1 = Inr s2" and
    eq: "children_visits st' = children_visits s2" by blast
  from sf have "put_visits (num_actions hp) (max_episode_len hp) slots ?eps rows
                  (children_visits s1) = Inr (children_visits s2)"
    by (auto simp: store_field_def split: sum.splits)
  then have "children_visits s2 (slots ! j) a (?eps ! j) = rows ! j ! a"
    using _ len wide j a by (rule put_visits_hit) simp
  with eq j show ?thesis by simp
qed

lemma append_stats_dones:
  fixes st :: "'o game_stats"
  assumes ok: "append_stats hp st index d = Inr st'"
      and slots: "norm_indices (batch_size hp) index = Inr slots"
      and keys: "distinct (map fst d)"
      and mem: "(''dones'', BoolT bs) \<in> set d"
  shows "\<exists>t. put_flags slots bs t = Inr (dones st') \<and> t = dones st"
proof -
  let ?eps = "map (episode_len st) slots"
  have "\<exists>(s1 :: 'o game_stats) s2. store_field hp slots ?eps ''dones'' (BoolT bs) s1 = Inr s2
          \<and> dones s1 = dones st \<and> dones st' = dones s2"
  proof (rule append_stats_field [where P = dones, OF ok slots keys mem])
    fix k' v' s s'
    assume "k' \<noteq> ''dones''" "k' \<in> set stored_tensors"
      "store_field hp slots ?eps k' v' s = Inr s'"
    then show "dones s' = dones s" using store_field_frame by blast
  qed simp
  then obtain s1 :: "'o game_stats" and s2 where
    sf: "store_field hp slots ?eps ''dones'' (BoolT bs) s1 = Inr s2" and
    eq: "dones s1 = dones st" "dones st' = dones s2" by blast
  from sf have "put_flags slots bs (dones s1) = Inr (dones s2)"
    by (auto simp: store_field_def split: sum.splits)
  with eq show ?thesis by simp
qed

lemma append_stats_game_states:
  fixes st :: "'o game_stats"
  assumes ok: "append_stats hp st index d = Inr st'"
      and slots: "norm_indices (batch_size hp) index = Inr slots"
      and keys: "distinct (map fst d)"
      and mem: "(''game_states'', v) \<in> set d"
  shows "game_states st' = game_states st @ [v]"
proof -
  let ?eps = "map (episode_len st) slots"
  have "\<exists>(s1 :: 'o game_stats) s2. store_field hp slots ?eps ''game_states'' v s1 = Inr s2
          \<and> game_states s1 = game_states st \<and> game_states st' = game_states s2"
  proof (rule append_stats_field [where P = game_states, OF ok slots keys mem])
    fix k' v' s s'
    assume "k' \<noteq> ''game_states''" "k' \<in> set stored_tensors"
      "store_field hp slots ?eps k' v' s = Inr s'"
    then show "game_states s' = game_states s" using store_field_frame by blast
  qed simp
  then obtain s1 :: "'o game_stats" and s2 where
    sf: "store_field hp slots ?eps ''game_states'' v s1 = Inr s2" and
    eq: "game_states s1 = game_states st" "game_states st' = game_states s2" by blast
  from sf have "game_states s2 = game_states s1 @ [v]"
    by (auto simp: store_field_def)
  with eq show ?thesis by simp
qed

lemmas append_eval =
  append_stats_def norm_index_def stored_tensors_def store_field_def put_visits_def
  put_steps_def put_flags_def broadcast_to_def game_stats_init_def hp_example_def
  Let_def

lemma dict_example_ok:
  "\<exists>st'. append_stats hp_example (game_stats_init :: nat game_stats) [0, 1] dict_example = Inr st'"
  by (simp add: append_eval dict_example_def upt_rec)

text \<open>
  Claim C3, as the code has it. After a call of \<open>append\<close> that returns, for distinct
  active slots and a dictionary (distinct keys):
  \<^item> \<open>episode_len[slot]\<close> is one more than before for each active slot and unchanged
    for every other slot;
  \<^item> the values under \<open>rewards\<close>, \<open>root_values\<close>, \<open>actions\<close>, \<open>player_ids\<close> and
    \<open>children_visits\<close> stand at position \<open>episode_len[slot]\<close> (the length before the
    call) of the active slot's buffer;
  \<^item> the value under \<open>dones\<close> is the slot's one done flag: that buffer has no step
    position;
  \<^item> the value under \<open>game_states\<close> is appended, whole, at the end of the list of
    snapshots, whatever the episode lengths are.
\<close>

theorem append_writes_and_advances:
  fixes st :: "'o game_stats"
  assumes ok: "append_stats hp st index d = Inr st'"
      and slots: "norm_indices (batch_size hp) index = Inr slots"
      and dist: "distinct slots"
      and keys: "distinct (map fst d)"
  shows "(\<forall>s. episode_len st' s
              = (if s \<in> set slots then episode_len st s + 1 else episode_len st s))
       \<and> (\<forall>vs j. (''rewards'', FloatT vs) \<in> set d \<and> length vs = length slots
                \<and> j < length slots
              \<longrightarrow> rewards st' (slots ! j) (episode_len st (slots ! j)) = vs ! j)
       \<and> (\<forall>vs j. (''root_values'', FloatT vs) \<in> set d \<and> length vs = length slots
                \<and> j < length slots
              \<longrightarrow> root_values st' (slots ! j) (episode_len st (slots ! j)) = vs ! j)
       \<and> (\<forall>vs j. (''actions'', LongT vs) \<in> set d \<and> length vs = length slots
                \<and> j < length slots
              \<longrightarrow> actions st' (slots ! j) (episode_len st (slots ! j)) = vs ! j)
       \<and> (\<forall>vs j. (''player_ids'', LongT vs) \<in> set d \<and> length vs = length slots
                \<and> j < length slots
              \<longrightarrow> player_ids st' (slots ! j) (episode_len st (slots ! j)) = vs ! j)
       \<and> (\<forall>rows j a. (''children_visits'', FloatT2 rows) \<in> set d
                \<and> length rows = length slots \<and> (\<forall>r\<in>set rows. length r = num_actions hp)
                \<and> j < length slots \<and> a < num_actions hp
              \<longrightarrow> children_visits st' (slots ! j) a (episode_len st (slots ! j)) = rows ! j ! a)
       \<and> (\<forall>bs j. (''dones'', BoolT bs) \<in> set d \<and> length bs = length slots
                \<and> j < length slots
              \<longrightarrow> dones st' (slots ! j) = bs ! j)
       \<and> (\<forall>v. (''game_states'', v) \<in> set d \<longrightarrow> game_states st' = game_states st @ [v])"
proof (intro conjI allI impI)
  fix s
  show "episode_len st' s = (if s \<in> set slots then episode_len st s + 1 else episode_len st s)"
    using ok slots dist by (rule append_stats_episode_len)
next
  fix vs j
  assume "(''rewards'', FloatT vs) \<in> set d \<and> length vs = length slots \<and> j < length slots"
  then show "rewards st' (slots ! j) (episode_len st (slots ! j)) = vs ! j"
    using append_stats_rewards [OF ok slots dist keys] by blast
next
  fix vs j
  assume "(''root_values'', FloatT vs) \<in> set d \<and> length vs = length slots \<and> j < length slots"
  then show "root_values st' (slots ! j) (episode_len st (slots ! j)) = vs ! j"
    using append_stats_root_values [OF ok slots dist keys] by blast
next
  fix vs j
  assume "(''actions'', LongT vs) \<in> set d \<and> length vs = length slots \<and> j < length slots"
  then show "actions st' (slots ! j) (episode_len st (slots ! j)) = vs ! j"
    using append_stats_actions [OF ok slots dist keys] by blast
next
  fix vs j
  assume "(''player_ids'', LongT vs) \<in> set d \<and> length vs = length slots \<and> j < length slots"
  then show "player_ids st' (slots ! j) (episode_len st (slots ! j)) = vs ! j"
    using append_stats_player_ids [OF ok slots dist keys] by blast
next
  fix rows j a
  assume "(''children_visits'', FloatT2 rows) \<in> set d
            \<and> length rows = length slots \<and> (\<forall>r\<in>set rows. length r = num_actions hp)
            \<and> j < length slots \<and> a < num_actions hp"
  then show "children_visits st' (slots ! j) a (episode_len st (slots ! j)) = rows ! j ! a"
    using append_stats_children_visits [OF ok slots keys] by blast
next
  fix bs j
  assume h: "(''dones'', BoolT bs) \<in> set d \<and> length bs = length slots \<and> j < length slots"
  then have "put_flags slots bs (dones st) = Inr (dones st')"
    using append_stats_dones [OF ok slots keys] by blast
  then show "dones st' (slots ! j) = bs ! j"
    using put_flags_hit [of slots bs "dones st" "dones st'" j] dist h by simp
next
  fix v
  assume "(''game_states'', v) \<in> set d"
  then show "game_states st' = game_states st @ [v]"
    using ok slots keys by (rule append_stats_game_states [rotated 3])
qed


text \<open>One call on the fresh store with all seven fields, two active slots.\<close>

theorem append_writes_and_advances_witness:
  "\<exists>st'. append_stats hp_example (game_stats_init :: nat game_stats) [0, 1] dict_example = Inr st'
     \<and> norm_indices (batch_size hp_example) [0, 1] = Inr [0, 1]
     \<and> episode_len st' 0 = 1 \<and> episode_len st' 1 = 1
     \<and> rewards st' 1 0 = 1
     \<and> root_values st' 0 0 = 1 / 2
     \<and> actions st' 0 0 = 1
     \<and> player_ids st' 1 0 = 1
     \<and> children_visits st' 1 0 0 = 3
     \<and> dones st' 1
     \<and> game_states st' = [StateT [7, 8]]"
proof -
  obtain st' where
    ok: "append_stats hp_example (game_stats_init :: nat game_stats) [0, 1] dict_example = Inr st'"
    using dict_example_ok by blast
  have slots: "norm_indices (batch_size hp_example) [0, 1] = Inr [0, 1]"
    by (simp add: hp_example_def norm_index_def)
  have dist: "distinct [0, 1 :: nat]" by simp
  have keys: "distinct (map fst dict_example)" by (simp add: dict_example_def)
  note all = append_writes_and_advances [OF ok slots dist keys]
  note ep = all [THEN conjunct1, rule_format]
  note rw = all [THEN conjunct2, THEN conjunct1, rule_format]
  note rv = all [THEN conjunct2, THEN conjunct2, THEN conjunct1, rule_format]
  note ac = all [THEN conjunct2, THEN conjunct2, THEN conjunct2, THEN conjunct1, rule_format]
  note pl = all [THEN conjunct2, THEN conjunct2, THEN conjunct2, THEN conjunct2, THEN conjunct1,
      rule_format]
  note cv = all [THEN conjunct2, THEN conjunct2, THEN conjunct2, THEN conjunct2, THEN conjunct2,
      THEN conjunct1, rule_format]
  note dn = all [THEN conjunct2, THEN conjunct2, THEN conjunct2, THEN conjunct2, THEN conjunct2,
      THEN conjunct2, THEN conjunct1, rule_format]
  note gs = all [THEN conjunct2, THEN conjunct2, THEN conjunct2, THEN conjunct2, THEN conjunct2,
      THEN conjunct2, THEN conjunct2, rule_format]
  have e0: "episode_len st' 0 = 1" using ep [of 0] by (simp add: game_stats_init_def)
  have e1: "episode_len st' 1 = 1" using ep [of 1] by (simp add: game_stats_init_def)
  have r: "rewards st' 1 0 = 1"
    using rw [of "[0, 1]" 1] by (simp add: dict_example_def game_stats_init_def)
  have v: "root_values st' 0 0 = 1 / 2"
    using rv [of "[1 / 2, 1 / 4]" 0] by (simp add: dict_example_def game_stats_init_def)
  have a: "actions st' 0 0 = 1"
    using ac [of "[1, 0]" 0] by (simp add: dict_example_def game_stats_init_def)
  have p: "player_ids st' 1 0 = 1"
    using pl [of "[1, 1]" 1] by (simp add: dict_example_def game_stats_init_def)
  have c: "children_visits st' 1 0 0 = 3"
    using cv [of "[[1, 2], [3, 4]]" 1 0]
    by (simp add: dict_example_def game_stats_init_def hp_example_def)
  have d: "dones st' 1"
    using dn [of "[False, True]" 1] by (simp add: dict_example_def)
  have g: "game_states st' = [StateT [7, 8]]"
    using gs [of "StateT [7, 8]"] by (simp add: dict_example_def game_stats_init_def)
  show ?thesis using ok slots e0 e1 r v a p c d g by blast
qed

text \<open>
  Claim C3 as stated fails for the snapshots: slot 1 becomes active in the second call,
  where its \<open>episode_len\<close> is 0; its snapshot is stored at list position 1, and
  position 0 keeps the snapshot of the first call.
\<close>

theorem append_snapshot_position_counterexample:
  "append_stats hp_example game_stats_init [0] [(''game_states'', StateT [1, 1])]
     = Inr stats_one_snapshot
   \<and> episode_len stats_one_snapshot 1 = 0
   \<and> append_stats hp_example stats_one_snapshot [1] [(''game_states'', StateT [2, 2])]
     = Inr (stats_one_snapshot
              \<lparr> episode_len := (\<lambda>_. 0)(0 := 1, 1 := 1),
                game_states := [StateT [1, 1], StateT [2, 2]] \<rparr>)
   \<and> [StateT [1, 1], StateT [2, 2 :: nat]] ! 0 \<noteq> StateT [2, 2]
   \<and> [StateT [1, 1], StateT [2, 2 :: nat]] ! 1 = StateT [2, 2]"
  by (simp add: append_eval stats_one_snapshot_def)


lemma broadcast_rows_error: "broadcast_rows A rs = Inl e \<Longrightarrow> e = TorchError"
  by (induction rs arbitrary: e) (auto simp: broadcast_to_def split: sum.splits if_splits)

lemma store_field_error:
  "store_field hp slots eps key v st = Inl e \<Longrightarrow> e = TorchError \<or> e = ValueError_not_in_place"
  by (auto simp: store_field_def put_steps_def put_visits_def put_flags_def broadcast_to_def
        Let_def
      split: if_splits tensor.splits sum.splits dest: broadcast_rows_error)

lemma append_loop_unknown:
  "\<exists>kv\<in>set d. fst kv \<notin> set stored_tensors \<Longrightarrow> \<exists>e. append_loop hp slots eps d st = Inl e"
proof (induction d arbitrary: st)
  case Nil
  then show ?case by simp
next
  case (Cons kv d)
  obtain k v where kv: "kv = (k, v)" by (cases kv)
  show ?case
  proof (cases "k \<in> set stored_tensors")
    case False
    then show ?thesis by (simp add: kv)
  next
    case True
    with Cons.prems kv have rest: "\<exists>kv\<in>set d. fst kv \<notin> set stored_tensors" by auto
    show ?thesis
    proof (cases "store_field hp slots eps k v st")
      case (Inl e)
      with True show ?thesis by (simp add: kv)
    next
      case (Inr st1)
      with True Cons.IH [OF rest, of st1] show ?thesis by (simp add: kv)
    qed
  qed
qed

lemma append_loop_known:
  "\<forall>kv\<in>set d. fst kv \<in> set stored_tensors
   \<Longrightarrow> append_loop hp slots eps d st \<noteq> Inl (ValueError_invalid_key k)"
proof (induction d arbitrary: st)
  case Nil
  then show ?case by simp
next
  case (Cons kv d)
  obtain k' v where kv: "kv = (k', v)" by (cases kv)
  from Cons.prems kv have known: "k' \<in> set stored_tensors"
    and rest: "\<forall>kv\<in>set d. fst kv \<in> set stored_tensors" by auto
  show ?case
  proof (cases "store_field hp slots eps k' v st")
    case (Inl e)
    with known store_field_error [OF Inl] show ?thesis by (auto simp: kv)
  next
    case (Inr st1)
    with known Cons.IH [OF rest, of st1] show ?thesis by (simp add: kv)
  qed
qed

lemma append_loop_detect:
  "append_loop hp slots eps pre st = Inr st1 \<Longrightarrow> k \<notin> set stored_tensors
   \<Longrightarrow> append_loop hp slots eps (pre @ (k, v) # post) st = Inl (ValueError_invalid_key k)"
proof (induction pre arbitrary: st)
  case Nil
  then show ?case by simp
next
  case (Cons kv pre)
  obtain k' v' where kv: "kv = (k', v')" by (cases kv)
  from Cons.prems kv have known: "k' \<in> set stored_tensors"
    by (auto split: if_splits)
  with Cons.prems kv obtain st2 where
    s1: "store_field hp slots eps k' v' st = Inr st2" and
    s2: "append_loop hp slots eps pre st2 = Inr st1"
    by (auto split: sum.splits)
  from Cons.IH [OF s2 Cons.prems(2)] s1 known show ?case by (simp add: kv)
qed

text \<open>
  Claim C8. A dictionary with a key that is not in \<open>stored_tensors\<close> makes \<open>append\<close>
  raise; when the index is valid and the items before that key were stored, the
  exception is the \<open>ValueError\<close> naming the key and nothing after it is processed. When
  every key is in \<open>stored_tensors\<close>, no invalid-key error is raised, for any key.
\<close>

theorem append_unknown_key:
  "((\<exists>kv\<in>set d. fst kv \<notin> set stored_tensors)
      \<longrightarrow> (\<exists>e. append_stats hp st index d = Inl e))
   \<and> ((\<forall>kv\<in>set d. fst kv \<in> set stored_tensors)
      \<longrightarrow> (\<forall>k. append_stats hp st index d \<noteq> Inl (ValueError_invalid_key k)))
   \<and> (\<forall>slots pre k v post st1.
         norm_indices (batch_size hp) index = Inr slots
         \<and> d = pre @ (k, v) # post \<and> k \<notin> set stored_tensors
         \<and> append_loop hp slots (map (episode_len st) slots) pre st = Inr st1
       \<longrightarrow> append_stats hp st index d = Inl (ValueError_invalid_key k))"
proof (intro conjI allI impI)
  assume "\<exists>kv\<in>set d. fst kv \<notin> set stored_tensors"
  then have loop: "\<exists>e. append_loop hp slots (map (episode_len st) slots) d st = Inl e"
    for slots by (rule append_loop_unknown)
  show "\<exists>e. append_stats hp st index d = Inl e"
  proof (cases "norm_indices (batch_size hp) index")
    case (Inl e)
    then show ?thesis by (simp add: append_stats_def)
  next
    case (Inr slots)
    from loop [of slots] obtain e where
      "append_loop hp slots (map (episode_len st) slots) d st = Inl e" by blast
    with Inr show ?thesis by (simp add: append_stats_def)
  qed
next
  fix k
  assume "\<forall>kv\<in>set d. fst kv \<in> set stored_tensors"
  then have "\<And>slots. append_loop hp slots (map (episode_len st) slots) d st
                \<noteq> Inl (ValueError_invalid_key k)"
    by (rule append_loop_known)
  moreover have "norm_indices n js \<noteq> Inl (ValueError_invalid_key k)" for n js
    by (induction js) (auto simp: norm_index_def split: sum.splits)
  ultimately show "append_stats hp st index d \<noteq> Inl (ValueError_invalid_key k)"
    by (auto simp: append_stats_def split: sum.splits)
next
  fix slots pre k v post st1
  assume h: "norm_indices (batch_size hp) index = Inr slots
         \<and> d = pre @ (k, v) # post \<and> k \<notin> set stored_tensors
         \<and> append_loop hp slots (map (episode_len st) slots) pre st = Inr st1"
  then have "append_loop hp slots (map (episode_len st) slots) d st
               = Inl (ValueError_invalid_key k)"
    using append_loop_detect by blast
  with h show "append_stats hp st index d = Inl (ValueError_invalid_key k)"
    by (simp add: append_stats_def)
qed

text \<open>The misspelt key \<open>reward\<close> between two stored ones, and the call without it.\<close>

theorem append_unknown_key_witness:
  "append_stats hp_example (game_stats_init :: nat game_stats) [0]
      [(''rewards'', FloatT [1]), (''reward'', FloatT [1]), (''dones'', BoolT [True])]
     = Inl (ValueError_invalid_key ''reward'')
   \<and> append_stats hp_example (game_stats_init :: nat game_stats) [0]
        [(''rewards'', FloatT [1]), (''dones'', BoolT [True])]
     \<noteq> Inl (ValueError_invalid_key ''rewards'')
   \<and> (\<exists>st'. append_stats hp_example (game_stats_init :: nat game_stats) [0]
        [(''rewards'', FloatT [1]), (''dones'', BoolT [True])] = Inr st')"
proof -
  let ?st = "game_stats_init :: nat game_stats"
  let ?bad = "[(''rewards'', FloatT [1]), (''reward'', FloatT [1]), (''dones'', BoolT [True])]"
  let ?good = "[(''rewards'', FloatT [1]), (''dones'', BoolT [True :: bool])]
                 :: (string \<times> nat tensor) list"
  have slots: "norm_indices (batch_size hp_example) [0] = Inr [0]"
    by (simp add: hp_example_def norm_index_def)
  have pre: "\<exists>st1. append_loop hp_example [0] (map (episode_len ?st) [0])
                   [(''rewards'', FloatT [1])] ?st = Inr st1"
    by (simp add: append_eval)
  have unk: "''reward'' \<notin> set stored_tensors" by (simp add: stored_tensors_def)
  have one: "append_stats hp_example ?st [0] ?bad = Inl (ValueError_invalid_key ''reward'')"
    using append_unknown_key [of ?bad hp_example ?st "[0]", THEN conjunct2, THEN conjunct2,
        rule_format, of "[0]" "[(''rewards'', FloatT [1])]" "''reward''" "FloatT [1]"
        "[(''dones'', BoolT [True])]"]
      slots pre unk by auto
  have "\<exists>kv\<in>set ?bad. fst kv \<notin> set stored_tensors" using unk by simp
  then have zero: "\<exists>e. append_stats hp_example ?st [0] ?bad = Inl e"
    using append_unknown_key [of ?bad hp_example ?st "[0]", THEN conjunct1] by blast
  have known: "\<forall>kv\<in>set ?good. fst kv \<in> set stored_tensors"
    by (simp add: stored_tensors_def)
  have two: "append_stats hp_example ?st [0] ?good \<noteq> Inl (ValueError_invalid_key ''rewards'')"
    using append_unknown_key [of ?good hp_example ?st "[0]", THEN conjunct2, THEN conjunct1,
        rule_format, of "''rewards''"] known by blast
  have three: "\<exists>st'. append_stats hp_example ?st [0] ?good = Inr st'"
    by (simp add: append_eval)
  show ?thesis using zero one two three by blast
qed


text \<open>
  Claim C9, as the code has it. The done flag is kept per slot, not per step: an
  \<open>append\<close> with a \<open>dones\<close> entry leaves in \<open>dones[slot]\<close> the flag of this call for
  every active slot, whatever flag was there, and leaves the flag of every other slot
  as it was.
\<close>

theorem append_done_flag_per_slot:
  fixes st :: "'o game_stats"
  assumes ok: "append_stats hp st index d = Inr st'"
      and slots: "norm_indices (batch_size hp) index = Inr slots"
      and dist: "distinct slots"
      and keys: "distinct (map fst d)"
      and mem: "(''dones'', BoolT bs) \<in> set d"
      and len: "length bs = length slots"
  shows "(\<forall>j<length slots. dones st' (slots ! j) = bs ! j)
       \<and> (\<forall>s. s \<notin> set slots \<longrightarrow> dones st' s = dones st s)"
proof -
  have pf: "put_flags slots bs (dones st) = Inr (dones st')"
    using append_stats_dones [OF ok slots keys mem] by blast
  have "dones st' (slots ! j) = bs ! j" if "j < length slots" for j
    using pf dist len that by (rule put_flags_hit)
  moreover have "dones st' s = dones st s" if "s \<notin> set slots" for s
    using pf that by (rule put_flags_other)
  ultimately show ?thesis by blast
qed

text \<open>The second step of slot 0 replaces its flag; slot 1 is untouched.\<close>

theorem append_done_flag_per_slot_witness:
  "append_stats hp_example stats_done_true [0] [(''dones'', BoolT [False])]
     = Inr (stats_done_true \<lparr> episode_len := (\<lambda>_. 0)(0 := 2),
                               dones := (\<lambda>_. False)(0 := False) \<rparr>)
   \<and> norm_indices (batch_size hp_example) [0] = Inr [0]
   \<and> \<not> dones (stats_done_true \<lparr> episode_len := (\<lambda>_. 0)(0 := 2),
                                 dones := (\<lambda>_. False)(0 := False) \<rparr>) 0
   \<and> dones (stats_done_true \<lparr> episode_len := (\<lambda>_. 0)(0 := 2),
                               dones := (\<lambda>_. False)(0 := False) \<rparr>) 1
       = dones stats_done_true 1"
proof -
  let ?st' = "stats_done_true \<lparr> episode_len := (\<lambda>_. 0)(0 := 2),
                                dones := (\<lambda>_. False)(0 := False) \<rparr>"
  have ok: "append_stats hp_example stats_done_true [0] [(''dones'', BoolT [False])] = Inr ?st'"
    by (simp add: append_eval stats_done_true_def numeral_2_eq_2)
  have slots: "norm_indices (batch_size hp_example) [0] = Inr [0]"
    by (simp add: hp_example_def norm_index_def)
  have fl: "(\<forall>j<length [0 :: nat]. dones ?st' ([0] ! j) = [False] ! j)
       \<and> (\<forall>s. s \<notin> set [0] \<longrightarrow> dones ?st' s = dones stats_done_true s)"
    by (rule append_done_flag_per_slot [OF ok slots]) simp_all
  have a: "\<not> dones ?st' 0" using fl [THEN conjunct1, rule_format, of 0] by simp
  have b: "dones ?st' 1 = dones stats_done_true 1"
    using fl [THEN conjunct2, rule_format, of 1] by simp
  show ?thesis using ok slots a b by blast
qed

text \<open>
  Claim C9 as stated fails: the flag recorded at step 0 is overwritten by the append
  of step 1. Two histories that differ in the flag of step 0 (\<open>True\<close> or \<open>False\<close>) end
  in the same store, so the earlier flag cannot be read back.
\<close>

theorem append_done_flag_overwritten_counterexample:
  "append_stats hp_example game_stats_init [0] [(''dones'', BoolT [True])] = Inr stats_done_true
   \<and> append_stats hp_example game_stats_init [0] [(''dones'', BoolT [False])]
       = Inr stats_done_false
   \<and> dones stats_done_true 0
   \<and> \<not> dones stats_done_false 0
   \<and> append_stats hp_example stats_done_true [0] [(''dones'', BoolT [False])]
       = append_stats hp_example stats_done_false [0] [(''dones'', BoolT [False])]
   \<and> append_stats hp_example stats_done_true [0] [(''dones'', BoolT [False])]
       = Inr (stats_done_true \<lparr> episode_len := (\<lambda>_. 0)(0 := 2),
                                 dones := (\<lambda>_. False) \<rparr>)"
  by (simp add: append_eval stats_done_true_def stats_done_false_def numeral_2_eq_2 fun_eq_iff)

subsection \<open>\<open>make_target\<close>\<close>

lemma sequence_results_length: "sequence_results rs = Inr xs \<Longrightarrow> length xs = length rs"
  by (induction rs arbitrary: xs) (auto split: sum.splits)


lemma sequence_results_all:
  "(\<And>i. i < length rs \<Longrightarrow> rs ! i = Inr (f i)) \<Longrightarrow>
   sequence_results rs = Inr (map f [0..<length rs])"
proof (induction rs arbitrary: f)
  case Nil
  then show ?case by simp
next
  case (Cons r rs)
  from Cons.prems [of 0] have h: "r = Inr (f 0)" by simp
  have "\<And>i. i < length rs \<Longrightarrow> rs ! i = Inr ((f \<circ> Suc) i)"
    using Cons.prems [of "Suc _"] by simp
  then have "sequence_results rs = Inr (map (f \<circ> Suc) [0..<length rs])" by (rule Cons.IH)
  then show ?case using h by (simp add: map_upt_Suc del: upt_Suc)
qed

lemma filter_full: "length (filter P xs) = length xs \<Longrightarrow> filter P xs = xs"
proof -
  assume h: "length (filter P xs) = length xs"
  have "\<forall>x\<in>set xs. P x"
  proof (rule ccontr)
    assume "\<not> (\<forall>x\<in>set xs. P x)"
    then obtain x where "x \<in> set xs" "\<not> P x" by blast
    then have "length (filter P xs) < length xs" by (rule length_filter_less)
    with h show False by simp
  qed
  then show ?thesis by simp
qed

text \<open>The bootstrap term of one sample.\<close>

lemma bootstrap_values_length:
  "bootstrap_values hp st bs flags = Inr vs \<Longrightarrow> length vs = length bs"
  by (auto simp: bootstrap_values_def Let_def split: if_splits
      dest!: sequence_results_length filter_full)




lemma step_values_shapes:
  assumes "step_values hp st start_index k = Inr vals"
  shows "length vals = length start_index"
    and "length start_index = batch_size hp \<or> batch_size hp = 1"
    and "broadcastable (max_episode_len hp) (td_steps hp)"
  using assms
  by (auto simp: step_values_def Let_def split: if_splits sum.splits)


lemma unroll_step_result:
  assumes "unroll_step hp st start_index k acc = Inr acc'"
  shows "\<exists>vals. step_values hp st start_index k = Inr vals \<and> k < max_episode_len hp
           \<and> acc' = acc
              \<lparr> target_values :=
                  (\<lambda>i j. if i < length start_index \<and> j = k then vals ! i
                          else target_values acc i j),
                target_rewards :=
                  (\<lambda>i j. if i < length start_index \<and> j = k
                          then rewards st (broadcast_slot hp i) k
                          else target_rewards acc i j),
                target_children_visits :=
                  (\<lambda>i a j. if i < length start_index \<and> a < num_actions hp \<and> j = k
                            then children_visits st (broadcast_slot hp i) a k
                            else target_children_visits acc i a j),
                taken_actions :=
                  (\<lambda>i j. if i < length start_index \<and> j = k
                          then actions st (broadcast_slot hp i) k
                          else taken_actions acc i j),
                target_player_ids :=
                  (\<lambda>i j. if i < length start_index \<and> j = k
                          then player_ids st (broadcast_slot hp i) k
                          else target_player_ids acc i j),
                sample_len :=
                  (\<lambda>i. if i < length start_index
                          \<and> start_index ! i + int k < int (episode_len st (broadcast_slot hp i))
                        then sample_len acc i + 1
                        else sample_len acc i) \<rparr>"
  using assms by (auto simp: unroll_step_def split: sum.splits if_splits)

lemma unroll_loop_frame:
  assumes "unroll_loop hp st start_index ks acc = Inr acc'" and "j \<notin> set ks"
  shows "target_values acc' i j = target_values acc i j
       \<and> target_rewards acc' i j = target_rewards acc i j
       \<and> target_children_visits acc' i a j = target_children_visits acc i a j"
  using assms
proof (induction ks arbitrary: acc)
  case Nil
  then show ?case by simp
next
  case (Cons k ks)
  from Cons.prems(1) obtain acc1 where
    s1: "unroll_step hp st start_index k acc = Inr acc1" and
    s2: "unroll_loop hp st start_index ks acc1 = Inr acc'"
    by (auto split: sum.splits)
  from Cons.prems(2) have ne: "j \<noteq> k" and rest: "j \<notin> set ks" by auto
  from unroll_step_result [OF s1] ne have
    "target_values acc1 i j = target_values acc i j
       \<and> target_rewards acc1 i j = target_rewards acc i j
       \<and> target_children_visits acc1 i a j = target_children_visits acc i a j"
    by auto
  with Cons.IH [OF s2 rest] show ?case by simp
qed

lemma unroll_loop_column:
  assumes "unroll_loop hp st start_index ks acc = Inr acc'"
      and "distinct ks" and "k \<in> set ks" and "i < length start_index"
  shows "\<exists>vals. step_values hp st start_index k = Inr vals \<and> k < max_episode_len hp
           \<and> target_values acc' i k = vals ! i
           \<and> target_rewards acc' i k = rewards st (broadcast_slot hp i) k
           \<and> (\<forall>a<num_actions hp.
                 target_children_visits acc' i a k = children_visits st (broadcast_slot hp i) a k)"
  using assms(1,2,3)
proof (induction ks arbitrary: acc)
  case Nil
  then show ?case by simp
next
  case (Cons k' ks)
  from Cons.prems(1) obtain acc1 where
    s1: "unroll_step hp st start_index k' acc = Inr acc1" and
    s2: "unroll_loop hp st start_index ks acc1 = Inr acc'"
    by (auto split: sum.splits)
  show ?case
  proof (cases "k = k'")
    case True
    with Cons.prems(2) have "k \<notin> set ks" by simp
    note fr = unroll_loop_frame [OF s2 this]
    from unroll_step_result [OF s1] True obtain vals where
      sv: "step_values hp st start_index k = Inr vals" and kL: "k < max_episode_len hp" and
      tv: "target_values acc1 i k = vals ! i" and
      tr: "target_rewards acc1 i k = rewards st (broadcast_slot hp i) k" and
      tc: "\<forall>a<num_actions hp.
             target_children_visits acc1 i a k = children_visits st (broadcast_slot hp i) a k"
      using assms(4) by auto
    from sv kL tv tr tc fr show ?thesis by auto
  next
    case False
    with Cons.prems have "distinct ks" "k \<in> set ks" by auto
    with Cons.IH [OF s2] show ?thesis by blast
  qed
qed

lemma unroll_loop_sample_len:
  assumes "unroll_loop hp st start_index ks acc = Inr acc'" and "i < length start_index"
  shows "sample_len acc' i
           = sample_len acc i
             + int (length (filter
                  (\<lambda>k. start_index ! i + int k < int (episode_len st (broadcast_slot hp i))) ks))"
  using assms(1)
proof (induction ks arbitrary: acc)
  case Nil
  then show ?case by simp
next
  case (Cons k ks)
  from Cons.prems(1) obtain acc1 where
    s1: "unroll_step hp st start_index k acc = Inr acc1" and
    s2: "unroll_loop hp st start_index ks acc1 = Inr acc'"
    by (auto split: sum.splits)
  from unroll_step_result [OF s1] assms(2) have
    "sample_len acc1 i
       = (if start_index ! i + int k < int (episode_len st (broadcast_slot hp i))
          then sample_len acc i + 1 else sample_len acc i)"
    by auto
  with Cons.IH [OF s2] show ?case by simp
qed

lemma initial_game_states_length:
  "initial_game_states gs b start_index = Inr xs \<Longrightarrow> length xs = length start_index"
  by (induction start_index arbitrary: b xs) (auto split: sum.splits tensor.splits if_splits)

lemma make_target_result:
  assumes "make_target hp st start_index = Inr res"
  shows "\<exists>acc inits.
           unroll_loop hp st start_index [0..<num_unroll_steps hp + 1] targets_zero = Inr acc
         \<and> initial_game_states (game_states st) 0 start_index = Inr inits
         \<and> length res = length start_index
         \<and> (\<forall>i<length start_index.
               te_start_index (res ! i) = start_index ! i
             \<and> te_values (res ! i) = map (target_values acc i) [0..<num_unroll_steps hp + 1]
             \<and> te_rewards (res ! i) = map (target_rewards acc i) [0..<num_unroll_steps hp + 1]
             \<and> te_children_visits (res ! i)
                 = map (\<lambda>a. map (target_children_visits acc i a) [0..<num_unroll_steps hp + 1])
                     [0..<num_actions hp]
             \<and> te_initial_game_state (res ! i) = inits ! i
             \<and> te_sample_len (res ! i) = sample_len acc i)"
  using assms by (auto simp: make_target_def split: sum.splits)

lemma make_target_entry:
  assumes ok: "make_target hp st start_index = Inr res"
      and i: "i < length start_index" and k: "k \<le> num_unroll_steps hp"
  shows "\<exists>vals. step_values hp st start_index k = Inr vals \<and> k < max_episode_len hp
           \<and> te_values (res ! i) ! k = vals ! i
           \<and> te_rewards (res ! i) ! k = rewards st (broadcast_slot hp i) k
           \<and> (\<forall>a<num_actions hp.
                 te_children_visits (res ! i) ! a ! k
                   = children_visits st (broadcast_slot hp i) a k)"
proof -
  let ?ks = "[0..<num_unroll_steps hp + 1]"
  from make_target_result [OF ok] i obtain acc where
    loop: "unroll_loop hp st start_index ?ks targets_zero = Inr acc" and
    tv: "te_values (res ! i) = map (target_values acc i) ?ks" and
    tr: "te_rewards (res ! i) = map (target_rewards acc i) ?ks" and
    tc: "te_children_visits (res ! i)
           = map (\<lambda>a. map (target_children_visits acc i a) ?ks) [0..<num_actions hp]"
    by blast
  have kin: "k \<in> set ?ks" and klt: "k < length ?ks" using k by auto
  have nk: "?ks ! k = k" using k by (simp add: nth_upt del: upt_Suc)
  from unroll_loop_column [OF loop _ kin i] obtain vals where
    sv: "step_values hp st start_index k = Inr vals" and kL: "k < max_episode_len hp" and
    c1: "target_values acc i k = vals ! i" and
    c2: "target_rewards acc i k = rewards st (broadcast_slot hp i) k" and
    c3: "\<forall>a<num_actions hp.
           target_children_visits acc i a k = children_visits st (broadcast_slot hp i) a k"
    by auto
  have v1: "te_values (res ! i) ! k = vals ! i"
    unfolding tv using klt nk c1 by (simp del: upt_Suc)
  have v2: "te_rewards (res ! i) ! k = rewards st (broadcast_slot hp i) k"
    unfolding tr using klt nk c2 by (simp del: upt_Suc)
  have v3: "te_children_visits (res ! i) ! a ! k = children_visits st (broadcast_slot hp i) a k"
    if "a < num_actions hp" for a
    unfolding tc using klt nk c3 that by (simp del: upt_Suc)
  from sv kL v1 v2 v3 show ?thesis by blast
qed

lemma broadcast_slot_batch:
  "length start_index = batch_size hp \<Longrightarrow> i < length start_index \<Longrightarrow> broadcast_slot hp i = i"
  by (simp add: broadcast_slot_def)








text \<open>
  Claim C6. For a batch with one start index per slot, the returned \<open>sample_len\<close> is
  the number of offsets \<open>k\<close> in \<open>0 .. num_unroll_steps\<close> with
  \<open>start_index + k < episode_len[slot]\<close>; when \<open>start_index + num_unroll_steps\<close> is at or
  beyond \<open>episode_len[slot]\<close>, it is less than \<open>num_unroll_steps + 1\<close>.
\<close>

theorem make_target_sample_len:
  assumes ok: "make_target hp st start_index = Inr res"
      and batch: "length start_index = batch_size hp"
      and i: "i < length start_index"
  shows "te_sample_len (res ! i)
           = int (length (filter (\<lambda>k. start_index ! i + int k < int (episode_len st i))
                            [0..<num_unroll_steps hp + 1]))
       \<and> (int (episode_len st i) \<le> start_index ! i + int (num_unroll_steps hp)
            \<longrightarrow> te_sample_len (res ! i) < int (num_unroll_steps hp) + 1)"
proof -
  let ?ks = "[0..<num_unroll_steps hp + 1]"
  let ?P = "\<lambda>k. start_index ! i + int k < int (episode_len st i)"
  have slot: "broadcast_slot hp i = i" using batch i by (rule broadcast_slot_batch)
  from make_target_result [OF ok] i obtain acc where
    loop: "unroll_loop hp st start_index ?ks targets_zero = Inr acc" and
    sl: "te_sample_len (res ! i) = sample_len acc i"
    by blast
  have count: "te_sample_len (res ! i) = int (length (filter ?P ?ks))"
    using unroll_loop_sample_len [OF loop i] sl by (simp add: slot targets_zero_def)
  have short: "te_sample_len (res ! i) < int (num_unroll_steps hp) + 1"
    if "int (episode_len st i) \<le> start_index ! i + int (num_unroll_steps hp)"
  proof -
    have "num_unroll_steps hp \<in> set ?ks" by simp
    moreover have "\<not> ?P (num_unroll_steps hp)" using that by simp
    ultimately have "length (filter ?P ?ks) < length ?ks" by (rule length_filter_less)
    then show ?thesis unfolding count by simp
  qed
  from count short show ?thesis by blast
qed

lemma bootstrap_values_rewards [simp]:
  "bootstrap_values hp (st\<lparr>rewards := r'\<rparr>) bs fl = bootstrap_values hp st bs fl"
proof -
  have "root_values (st\<lparr>rewards := r'\<rparr>) = root_values st" by simp
  then show ?thesis unfolding bootstrap_values_def by (simp only:)
qed

lemma step_values_rewards:
  assumes ok: "step_values hp st start_index k = Inr vals"
  shows "\<exists>vals'. step_values hp (st\<lparr>rewards := r'\<rparr>) start_index k = Inr vals'
           \<and> (\<forall>i<length start_index.
                 masked_rewards hp (st\<lparr>rewards := r'\<rparr>) (broadcast_slot hp i)
                     (start_index ! i + int k) (start_index ! i + int k + int (td_steps hp))
                   = masked_rewards hp st (broadcast_slot hp i)
                       (start_index ! i + int k) (start_index ! i + int k + int (td_steps hp))
                 \<longrightarrow> vals' ! i = vals ! i)"
  using ok
  by (auto simp: step_values_def Let_def split: if_splits sum.splits)

lemma unroll_loop_steps:
  "unroll_loop hp st start_index ks acc = Inr acc' \<Longrightarrow> k \<in> set ks
   \<Longrightarrow> k < max_episode_len hp \<and> (\<exists>vals. step_values hp st start_index k = Inr vals)"
proof (induction ks arbitrary: acc)
  case Nil
  then show ?case by simp
next
  case (Cons k' ks)
  from Cons.prems(1) obtain acc1 where
    s1: "unroll_step hp st start_index k' acc = Inr acc1" and
    s2: "unroll_loop hp st start_index ks acc1 = Inr acc'"
    by (auto split: sum.splits)
  show ?case
  proof (cases "k = k'")
    case True
    with unroll_step_result [OF s1] show ?thesis by blast
  next
    case False
    with Cons.prems(2) have "k \<in> set ks" by simp
    with Cons.IH [OF s2] show ?thesis by blast
  qed
qed

lemma unroll_loop_succeeds:
  "\<forall>k\<in>set ks. k < max_episode_len hp \<and> (\<exists>vals. step_values hp st start_index k = Inr vals)
   \<Longrightarrow> \<exists>acc'. unroll_loop hp st start_index ks acc = Inr acc'"
proof (induction ks arbitrary: acc)
  case Nil
  then show ?case by simp
next
  case (Cons k ks)
  from Cons.prems obtain vals where
    kL: "k < max_episode_len hp" and sv: "step_values hp st start_index k = Inr vals"
    by auto
  then obtain acc1 where s1: "unroll_step hp st start_index k acc = Inr acc1"
    by (simp add: unroll_step_def)
  from Cons.prems have
    "\<forall>k\<in>set ks. k < max_episode_len hp \<and> (\<exists>vals. step_values hp st start_index k = Inr vals)"
    by simp
  from Cons.IH [OF this, of acc1] s1 show ?case by simp
qed

lemma make_target_succeeds:
  assumes "initial_game_states (game_states st) 0 start_index = Inr inits"
      and "unroll_loop hp st start_index [0..<num_unroll_steps hp + 1] targets_zero = Inr acc"
  shows "\<exists>res. make_target hp st start_index = Inr res"
  using assms by (simp add: make_target_def)

lemma masked_rewards_window:
  assumes "\<forall>c. u \<le> int c \<and> int c < b \<longrightarrow> rewards st' s c = rewards st s c"
  shows "masked_rewards hp st' s u b = masked_rewards hp st s u b"
  unfolding masked_rewards_def using assms by (intro map_cong) auto

text \<open>
  What the two index masks settle. Two stores that differ only in reward entries
  outside the window \<open>[start_index + k, start_index + k + td_steps)\<close> of a sample give
  the same \<open>target_value\<close> for that sample at offset \<open>k\<close> (and \<open>make_target\<close> returns
  for the one when it returns for the other): the rewards are masked by index
  comparisons, and the rotation of \<open>roll_by_gather\<close> touches the discount multipliers
  only. The lemma says nothing about entries inside the window.
\<close>

lemma make_target_value_window:
  assumes ok: "make_target hp st start_index = Inr res"
      and batch: "length start_index = batch_size hp"
      and i: "i < length start_index" and k: "k \<le> num_unroll_steps hp"
      and agree: "\<forall>c. start_index ! i + int k \<le> int c
                     \<and> int c < start_index ! i + int k + int (td_steps hp)
                   \<longrightarrow> r' i c = rewards st i c"
  shows "\<exists>res'. make_target hp (st\<lparr>rewards := r'\<rparr>) start_index = Inr res'
           \<and> te_values (res' ! i) ! k = te_values (res ! i) ! k"
proof -
  let ?st' = "st\<lparr>rewards := r'\<rparr>"
  let ?ks = "[0..<num_unroll_steps hp + 1]"
  have slot: "broadcast_slot hp i = i" using batch i by (rule broadcast_slot_batch)
  from make_target_result [OF ok] obtain acc inits where
    loop: "unroll_loop hp st start_index ?ks targets_zero = Inr acc" and
    init: "initial_game_states (game_states st) 0 start_index = Inr inits"
    by blast
  have "\<forall>j\<in>set ?ks. j < max_episode_len hp
          \<and> (\<exists>vals. step_values hp ?st' start_index j = Inr vals)"
  proof
    fix j assume "j \<in> set ?ks"
    from unroll_loop_steps [OF loop this] obtain vals where
      "j < max_episode_len hp" "step_values hp st start_index j = Inr vals" by blast
    with step_values_rewards [of hp st start_index j vals r']
    show "j < max_episode_len hp \<and> (\<exists>vals. step_values hp ?st' start_index j = Inr vals)"
      by blast
  qed
  then obtain acc' where
    loop': "unroll_loop hp ?st' start_index ?ks targets_zero = Inr acc'"
    using unroll_loop_succeeds by blast
  have "initial_game_states (game_states ?st') 0 start_index = Inr inits" using init by simp
  from make_target_succeeds [OF this loop'] obtain res' where
    ok': "make_target hp ?st' start_index = Inr res'" by blast
  from make_target_entry [OF ok i k] obtain vals where
    sv: "step_values hp st start_index k = Inr vals" and
    tv: "te_values (res ! i) ! k = vals ! i" by blast
  from make_target_entry [OF ok' i k] obtain vals' where
    sv': "step_values hp ?st' start_index k = Inr vals'" and
    tv': "te_values (res' ! i) ! k = vals' ! i" by blast
  have "masked_rewards hp ?st' i (start_index ! i + int k)
            (start_index ! i + int k + int (td_steps hp))
          = masked_rewards hp st i (start_index ! i + int k)
              (start_index ! i + int k + int (td_steps hp))"
    by (rule masked_rewards_window) (use agree in simp)
  with step_values_rewards [OF sv, of r'] sv' i have "vals' ! i = vals ! i"
    by (auto simp: slot)
  with ok' tv tv' show ?thesis by auto
qed

lemmas make_target_eval =
  make_target_def unroll_step_def targets_zero_def
  step_values_def bootstrap_values_def masked_rewards_def mul_broadcast_def
  broadcastable_def broadcast_slot_def roll_by_gather_row_def discount_mult_def logspace_def
  linspace_def pow_real_def norm_index_def game_stats_init_def Let_def


lemma stats_pair_start1: "make_target hp_example stats_pair [1, 1] = Inr targets_pair_start1"
  by (simp add: make_target_eval hp_example_def stats_pair_def targets_pair_start1_def
        eval_nat_numeral)

text \<open>
  Claim C1 at start index 1. The returned rewards and visit counts are those of the
  steps 0 and 1 of the episode (columns \<open>unroll_step\<close> of the buffers), where the claim
  has those of step 1 and, for step 2 beyond the end of the episode, zero.
\<close>

theorem make_target_rewards_unshifted:
  "make_target hp_example stats_pair [1, 1] = Inr targets_pair_start1
   \<and> map te_rewards targets_pair_start1 = [[1, 2], [3, 4]]
   \<and> map te_children_visits targets_pair_start1 = [[[5, 6], [7, 8]], [[0, 0], [0, 0]]]
   \<and> episode_len stats_pair 0 = 2
   \<and> map (rewards stats_pair 0) [0, 1, 2] = [1, 2, 0]
   \<and> map (children_visits stats_pair 0 0) [0, 1, 2] = [5, 6, 0]"
  using stats_pair_start1
  by (simp add: targets_pair_start1_def stats_pair_def game_stats_init_def)

text \<open>
  Claim C2 at \<open>td_steps = 3\<close>, \<open>value_discount = 1/2\<close>: the reward two steps after the
  start is scaled by \<open>discount ^ 1\<close>, where the claim has \<open>discount ^ 2\<close>: the exponents
  of \<open>torch.logspace(0, 1, td_steps)\<close> are \<open>0, 1/2, 1\<close>. Further, with
  \<open>td_steps = 2\<close> and a buffer of three steps the product \<open>rewards * discount\<close> raises,
  and so does the bootstrap when it is valid for one sample and not for the other.
\<close>

theorem make_target_discount_exponent:
  "make_target hp_three stats_three [0] =
     Inr [\<lparr> te_start_index = 0, te_values = [1 / 2], te_rewards = [0],
            te_children_visits = [[0]], te_initial_game_state = 100,
            te_actions = [0], te_sample_len = 1, te_player_ids = [0] \<rparr>]
   \<and> value_discount hp_three ^ 0 * rewards stats_three 0 0
       + value_discount hp_three ^ 1 * rewards stats_three 0 1
       + value_discount hp_three ^ 2 * rewards stats_three 0 2 = 1 / 4
   \<and> make_target (hp_example \<lparr> td_steps := 2 \<rparr>) stats_pair [0, 0] = Inl TorchError
   \<and> make_target hp_example (stats_pair \<lparr> episode_len := (\<lambda>_. 0)(0 := 3, 1 := 2) \<rparr>) [0, 0]
       = Inl TorchError"
  by (simp add: make_target_eval hp_three_def stats_three_def hp_example_def stats_pair_def
        eval_nat_numeral)

text \<open>
  Claim C4 at start index 1, offset 1. The two stores differ only in the reward at
  index 2 of slot 0, which is beyond the end of the episode (\<open>episode_len = 2\<close>); the
  claim has the two target values identical, and the code returns 0 for the one store
  and -1 for the other. The loop gates the bootstrap term and \<open>sample_len\<close> by
  \<open>self.episode_len\<close>, but no mask of the rewards uses it. The second store is what
  \<open>update_last_reward_and_values\<close> on the empty episode of slot 0, followed by two
  calls of \<open>append\<close>, leaves behind.
\<close>

theorem make_target_value_beyond_episode:
  "make_target hp_example stats_pair [1, 1] = Inr targets_pair_start1
   \<and> make_target hp_example stats_pair_late [1, 1]
       = Inr [(targets_pair_start1 ! 0) \<lparr> te_values := [2, - 1] \<rparr>, targets_pair_start1 ! 1]
   \<and> stats_pair_late
       = stats_pair \<lparr> rewards := (rewards stats_pair)(0 := (rewards stats_pair 0)(2 := - 1)) \<rparr>
   \<and> episode_len stats_pair 0 = 2
   \<and> te_values (targets_pair_start1 ! 0) ! 1 = 0
   \<and> te_values ((targets_pair_start1 ! 0) \<lparr> te_values := [2, - 1] \<rparr>) ! 1 = - 1
   \<and> update_last_reward_and_values hp_example (game_stats_init :: int game_stats) [0] [- 1]
       = Inr (game_stats_init \<lparr> rewards := (\<lambda>_ _. 0)(0 := (\<lambda>_. 0)(2 := - 1)) \<rparr>)
   \<and> append_all hp_example
         (game_stats_init \<lparr> rewards := (\<lambda>_ _. 0)(0 := (\<lambda>_. 0)(2 := - 1)) \<rparr>)
         [([0, 1], [(''children_visits'', FloatT2 [[5, 7], [0, 0]]),
                    (''root_values'', FloatT [10, 30]),
                    (''game_states'', StateT [100, 101]),
                    (''rewards'', FloatT [1, 3])]),
          ([0, 1], [(''children_visits'', FloatT2 [[6, 8], [0, 0]]),
                    (''root_values'', FloatT [20, 40]),
                    (''game_states'', StateT [200, 201]),
                    (''rewards'', FloatT [2, 4])])]
       = Inr stats_pair_late"
proof -
  have "make_target hp_example stats_pair_late [1, 1]
       = Inr [(targets_pair_start1 ! 0) \<lparr> te_values := [2, - 1] \<rparr>, targets_pair_start1 ! 1]"
    by (simp add: make_target_eval hp_example_def stats_pair_def stats_pair_late_def
        targets_pair_start1_def eval_nat_numeral)
  moreover have "update_last_reward_and_values hp_example (game_stats_init :: int game_stats)
         [0] [- 1]
       = Inr (game_stats_init \<lparr> rewards := (\<lambda>_ _. 0)(0 := (\<lambda>_. 0)(2 := - 1)) \<rparr>)
   \<and> append_all hp_example
         (game_stats_init \<lparr> rewards := (\<lambda>_ _. 0)(0 := (\<lambda>_. 0)(2 := - 1)) \<rparr>)
         [([0, 1], [(''children_visits'', FloatT2 [[5, 7], [0, 0]]),
                    (''root_values'', FloatT [10, 30]),
                    (''game_states'', StateT [100, 101]),
                    (''rewards'', FloatT [1, 3])]),
          ([0, 1], [(''children_visits'', FloatT2 [[6, 8], [0, 0]]),
                    (''root_values'', FloatT [20, 40]),
                    (''game_states'', StateT [200, 201]),
                    (''rewards'', FloatT [2, 4])])]
       = Inr stats_pair_late"
    by (auto simp: update_last_reward_and_values_def append_eval stats_pair_late_def
        stats_pair_def eval_nat_numeral fun_eq_iff less_Suc_eq)
  moreover have "episode_len stats_pair 0 = 2
   \<and> te_values (targets_pair_start1 ! 0) ! 1 = 0
   \<and> te_values ((targets_pair_start1 ! 0) \<lparr> te_values := [2, - 1] \<rparr>) ! 1 = - 1"
    by (simp add: stats_pair_def targets_pair_start1_def)
  ultimately show ?thesis using stats_pair_start1 by (simp add: stats_pair_late_def)
qed

text \<open>The reward of step 0 is outside the window of start index 1 at offset 0.\<close>

lemma make_target_value_window_example:
  "make_target hp_example stats_pair [1, 1] = Inr targets_pair_start1
   \<and> length [1, 1 :: int] = batch_size hp_example
   \<and> (\<exists>res'. make_target hp_example stats_pair_early [1, 1] = Inr res'
          \<and> te_values (res' ! 0) ! 0 = te_values (targets_pair_start1 ! 0) ! 0)
   \<and> rewards stats_pair_early 0 0 \<noteq> rewards stats_pair 0 0"
proof -
  let ?r' = "(rewards stats_pair)(0 := (rewards stats_pair 0)(0 := 99))"
  have "\<exists>res'. make_target hp_example (stats_pair\<lparr>rewards := ?r'\<rparr>) [1, 1] = Inr res'
          \<and> te_values (res' ! 0) ! 0 = te_values (targets_pair_start1 ! 0) ! 0"
    by (rule make_target_value_window [OF stats_pair_start1])
       (simp_all add: hp_example_def)
  then show ?thesis using stats_pair_start1
    by (simp add: stats_pair_early_def hp_example_def stats_pair_def game_stats_init_def)
qed

text \<open>At start index 1 the window of two steps runs past the end of the episode.\<close>

theorem make_target_sample_len_witness:
  "make_target hp_example stats_pair [1, 1] = Inr targets_pair_start1
   \<and> length [1, 1 :: int] = batch_size hp_example
   \<and> te_sample_len (targets_pair_start1 ! 0)
       = int (length (filter (\<lambda>k. [1, 1] ! 0 + int k < int (episode_len stats_pair 0))
                        [0..<num_unroll_steps hp_example + 1]))
   \<and> int (episode_len stats_pair 0) \<le> [1, 1] ! 0 + int (num_unroll_steps hp_example)
   \<and> te_sample_len (targets_pair_start1 ! 0) < int (num_unroll_steps hp_example) + 1
   \<and> te_sample_len (targets_pair_start1 ! 0) = 1"
proof -
  have b: "length [1, 1 :: int] = batch_size hp_example" by (simp add: hp_example_def)
  have e: "int (episode_len stats_pair 0) \<le> [1, 1] ! 0 + int (num_unroll_steps hp_example)"
    by (simp add: hp_example_def stats_pair_def)
  note t = make_target_sample_len [OF stats_pair_start1 b, of 0]
  have c: "te_sample_len (targets_pair_start1 ! 0)
       = int (length (filter (\<lambda>k. [1, 1] ! 0 + int k < int (episode_len stats_pair 0))
                        [0..<num_unroll_steps hp_example + 1]))"
    using t by simp
  have s: "te_sample_len (targets_pair_start1 ! 0) < int (num_unroll_steps hp_example) + 1"
    using t e by simp
  show ?thesis using stats_pair_start1 b c e s by (simp add: targets_pair_start1_def)
qed


end
